theory Spec2Isabelle
  imports Main
begin

section \<open>JavaScript values and the built-ins the code relies on\<close>

text \<open>
  The values that travel through \<^verbatim>\<open>api.js\<close> and \<^verbatim>\<open>auth.js\<close> are request payloads,
  parsed response bodies and user objects. They are modelled by one datatype of
  JavaScript values. Numbers are the integer-valued ones (printed in plain decimal by
  the engine); strings are ASCII strings. The member list of \<open>JObj\<close> is the object's own
  property order, which for keys that are not array indices is insertion order; keys
  of an object are pairwise distinct.
\<close>

datatype jsval =
    JUndefined
  | JNull
  | JBool bool
  | JNum int
  | JStr string
  | JArr "jsval list"
  | JObj "(string \<times> jsval) list"

text \<open>An exception value; the code only ever reads \<^verbatim>\<open>error.message\<close>.\<close>

datatype js_error = Error string | TypeError string

fun message :: "js_error \<Rightarrow> string" where
  "message (Error m) = m"
| "message (TypeError m) = m"

text \<open>ToBoolean, as used by \<^verbatim>\<open>!x\<close>, \<^verbatim>\<open>x || y\<close> and \<^verbatim>\<open>if (x)\<close>.\<close>

fun truthy :: "jsval \<Rightarrow> bool" where
  "truthy JUndefined = False"
| "truthy JNull = False"
| "truthy (JBool b) = b"
| "truthy (JNum n) = (n \<noteq> 0)"
| "truthy (JStr s) = (s \<noteq> [])"
| "truthy (JArr xs) = True"
| "truthy (JObj ms) = True"

text \<open>
  Property read \<^verbatim>\<open>v.name\<close> for the names the code uses (\<^verbatim>\<open>success\<close>, \<^verbatim>\<open>message\<close>,
  \<^verbatim>\<open>user\<close>, \<^verbatim>\<open>profile\<close>, \<^verbatim>\<open>email\<close>): reading from \<^verbatim>\<open>undefined\<close> or \<^verbatim>\<open>null\<close> throws a
  TypeError (the wording is V8's), a missing member reads as \<^verbatim>\<open>undefined\<close>, and
  primitives and arrays have none of these members.
\<close>

fun get_prop :: "jsval \<Rightarrow> string \<Rightarrow> js_error + jsval" where
  "get_prop JUndefined name =
     Inl (TypeError (''Cannot read properties of undefined (reading '' @ [CHR 0x27] @ name @ [CHR 0x27] @ '')''))"
| "get_prop JNull name =
     Inl (TypeError (''Cannot read properties of null (reading '' @ [CHR 0x27] @ name @ [CHR 0x27] @ '')''))"
| "get_prop (JObj ms) name = (case map_of ms name of None \<Rightarrow> Inr JUndefined | Some v \<Rightarrow> Inr v)"
| "get_prop v name = Inr JUndefined"

text \<open>Decimal and hexadecimal digits; \<^verbatim>\<open>Number.prototype.toString\<close> on integers.\<close>

definition digit_char :: "nat \<Rightarrow> char" where
  "digit_char n = ''0123456789abcdef'' ! n"

function show_nat :: "nat \<Rightarrow> string" where
  "show_nat n = (if n < 10 then [digit_char n] else show_nat (n div 10) @ [digit_char (n mod 10)])"
  by pat_completeness auto
termination
  by (relation "measure id") auto

definition show_int :: "int \<Rightarrow> string" where
  "show_int i = (if i < 0 then ''-'' @ show_nat (nat (- i)) else show_nat (nat i))"

text \<open>\<^verbatim>\<open>Array.prototype.join\<close> on strings.\<close>

fun join :: "string \<Rightarrow> string list \<Rightarrow> string" where
  "join sep [] = []"
| "join sep [x] = x"
| "join sep (x # y # ys) = x @ sep @ join sep (y # ys)"

text \<open>
  ToString, as applied by template literals, \<^verbatim>\<open>new Error(v)\<close> and
  \<^verbatim>\<open>localStorage.setItem\<close>: an array joins its elements with commas (\<^verbatim>\<open>null\<close> and
  \<^verbatim>\<open>undefined\<close> elements print as nothing), a plain object prints as
  \<^verbatim>\<open>[object Object]\<close>.
\<close>

fun js_String :: "jsval \<Rightarrow> string" where
  "js_String JUndefined = ''undefined''"
| "js_String JNull = ''null''"
| "js_String (JBool b) = (if b then ''true'' else ''false'')"
| "js_String (JNum n) = show_int n"
| "js_String (JStr s) = s"
| "js_String (JArr xs) =
     join '','' (map (\<lambda>x. if x = JUndefined \<or> x = JNull then [] else js_String x) xs)"
| "js_String (JObj ms) = ''[object Object]''"

text \<open>
  \<^verbatim>\<open>new Error(v)\<close>: the message is ToString of the argument, and the empty string
  when the argument is \<^verbatim>\<open>undefined\<close>.
\<close>

definition new_Error :: "jsval \<Rightarrow> js_error" where
  "new_Error v = Error (if v = JUndefined then [] else js_String v)"

text \<open>
  \<^verbatim>\<open>JSON.stringify\<close>. A string is quoted, with the quote, the backslash and the control
  characters escaped. \<^verbatim>\<open>undefined\<close> has no serialization: at top level the result is
  \<^verbatim>\<open>undefined\<close> (here \<open>None\<close>), inside an array it prints as \<^verbatim>\<open>null\<close>, and an object
  member whose value is \<^verbatim>\<open>undefined\<close> is left out. Members are written in the object's
  own property order.
\<close>

definition escape_char :: "char \<Rightarrow> string" where
  "escape_char c =
     (let n = (of_char c :: nat) in
      if n = 0x22 then [CHR 0x5C, CHR 0x22]
      else if n = 0x5C then [CHR 0x5C, CHR 0x5C]
      else if n = 8 then [CHR 0x5C, CHR ''b'']
      else if n = 12 then [CHR 0x5C, CHR ''f'']
      else if n = 10 then [CHR 0x5C, CHR ''n'']
      else if n = 13 then [CHR 0x5C, CHR ''r'']
      else if n = 9 then [CHR 0x5C, CHR ''t'']
      else if n < 32 then
        [CHR 0x5C, CHR ''u'', CHR ''0'', CHR ''0'', digit_char (n div 16), digit_char (n mod 16)]
      else [c])"

definition quote :: "string \<Rightarrow> string" where
  "quote s = [CHR 0x22] @ concat (map escape_char s) @ [CHR 0x22]"

fun JSON_stringify :: "jsval \<Rightarrow> string option" where
  "JSON_stringify JUndefined = None"
| "JSON_stringify JNull = Some ''null''"
| "JSON_stringify (JBool b) = Some (if b then ''true'' else ''false'')"
| "JSON_stringify (JNum n) = Some (show_int n)"
| "JSON_stringify (JStr s) = Some (quote s)"
| "JSON_stringify (JArr xs) =
     Some (''['' @ join '','' (map (\<lambda>x. case JSON_stringify x of None \<Rightarrow> ''null'' | Some s \<Rightarrow> s) xs) @ '']'')"
| "JSON_stringify (JObj ms) =
     Some (''{'' @ join '',''
        (concat (map (\<lambda>(k, v). case JSON_stringify v of None \<Rightarrow> [] | Some s \<Rightarrow> [quote k @ '':'' @ s]) ms))
        @ ''}'')"

text \<open>The texts of the members of an object, as \<^verbatim>\<open>JSON.stringify\<close> joins them.\<close>

definition member_texts :: "(string \<times> jsval) list \<Rightarrow> string list" where
  "member_texts ms =
     concat (map (\<lambda>(k, v). case JSON_stringify v of None \<Rightarrow> [] | Some s \<Rightarrow> [quote k @ '':'' @ s]) ms)"

text \<open>\<^verbatim>\<open>String.prototype.includes\<close>: does \<open>s\<close> contain \<open>e\<close> as a contiguous substring.\<close>

fun starts_with :: "string \<Rightarrow> string \<Rightarrow> bool" where
  "starts_with s [] = True"
| "starts_with [] (p # ps) = False"
| "starts_with (c # cs) (p # ps) = (c = p \<and> starts_with cs ps)"

fun str_includes :: "string \<Rightarrow> string \<Rightarrow> bool" where
  "str_includes [] e = (e = [])"
| "str_includes (c # cs) e = (starts_with (c # cs) e \<or> str_includes cs e)"

text \<open>
  A JavaScript \<^verbatim>\<open>Map\<close> with string keys: an association list in insertion order with
  pairwise distinct keys. \<^verbatim>\<open>set\<close> overwrites in place or appends, \<^verbatim>\<open>delete\<close> removes.
\<close>

type_synonym 'v js_map = "(string \<times> 'v) list"

definition Map_has :: "'v js_map \<Rightarrow> string \<Rightarrow> bool" where
  "Map_has m k = (map_of m k \<noteq> None)"

definition Map_get :: "'v js_map \<Rightarrow> string \<Rightarrow> 'v option" where
  "Map_get m k = map_of m k"

fun Map_set :: "'v js_map \<Rightarrow> string \<Rightarrow> 'v \<Rightarrow> 'v js_map" where
  "Map_set [] k v = [(k, v)]"
| "Map_set ((k', v') # m) k v = (if k' = k then (k, v) # m else (k', v') # Map_set m k v)"

definition Map_delete :: "'v js_map \<Rightarrow> string \<Rightarrow> 'v js_map" where
  "Map_delete m k = filter (\<lambda>(k', v). k' \<noteq> k) m"

definition Map_keys :: "'v js_map \<Rightarrow> string list" where
  "Map_keys m = map fst m"

text \<open>
  \<^verbatim>\<open>setTimeout(callback, ms)\<close> in a browser takes its delay as a signed 32-bit integer: the
  number is reduced modulo \<open>2^32\<close> into the range from \<open>-2^31\<close> to \<open>2^31 - 1\<close>, and a negative
  delay counts as 0. A delay below \<open>2^31\<close> ms is kept; one from \<open>2^31\<close> to \<open>2^32 - 1\<close> ms makes
  the timer fire at once. This is the delay the timer really has.
\<close>

definition setTimeout_delay :: "nat \<Rightarrow> nat" where
  "setTimeout_delay ms = (let m = ms mod 2 ^ 32 in if m < 2 ^ 31 then m else 0)"

section \<open>ApiService (api.js)\<close>

text \<open>
  The two maps of the service (\<^verbatim>\<open>this.cache\<close>, \<^verbatim>\<open>this.requestQueue\<close>) and, because
  \<^verbatim>\<open>request\<close> is asynchronous, the bookkeeping that makes its effects observable:
  \<^item> \<open>timers\<close>: the pending \<^verbatim>\<open>setTimeout\<close> callbacks of line 40, each with its due time
    and the key it will delete from the cache;
  \<^item> \<open>launched\<close>: the invocations of \<^verbatim>\<open>_makeRequest\<close> so far, in order, each with its
    arguments and, once its promise has settled, the outcome (\<open>Inr\<close> the value it
    resolved to, \<open>Inl\<close> the error it rejected with); the promise of the \<open>p\<close>-th
    invocation is identified by its index \<open>p\<close>;
  \<^item> \<open>exchanges\<close>: the number of \<^verbatim>\<open>fetch\<close> calls made by the invocations that have settled
    (those of a pending invocation are counted when it settles).

  This is the class \<^verbatim>\<open>ApiService\<close>, lines 6 to 210. The two wrappers that the end of the
  file installs on the instance \<^verbatim>\<open>API\<close> (lines 215 to 243) are not part of it.
\<close>

record options =
  opt_cacheKey :: "string option"
  opt_method :: "string option"
  opt_cacheTime :: "nat option"
  opt_retries :: "nat option"
  opt_retryDelay :: "nat option"

type_synonym outcome = "js_error + jsval"

record api_state =
  cache :: "jsval js_map"
  requestQueue :: "nat js_map"
  timers :: "(nat \<times> string) list"
  launched :: "((string \<times> jsval \<times> string \<times> options) \<times> outcome option) list"
  exchanges :: nat

definition api_init :: api_state where
  "api_init = \<lparr>cache = [], requestQueue = [], timers = [], launched = [], exchanges = 0\<rparr>"

definition generateCacheKey :: "string \<Rightarrow> jsval \<Rightarrow> string" where
  "generateCacheKey endpoint data =
     endpoint @ ''_'' @ (case JSON_stringify data of None \<Rightarrow> ''undefined'' | Some s \<Rightarrow> s)"

definition clearUserCache :: "api_state \<Rightarrow> string \<Rightarrow> api_state" where
  "clearUserCache st email =
     (let keysToDelete = filter (\<lambda>key. str_includes key email) (Map_keys (cache st))
      in st\<lparr>cache := foldl Map_delete (cache st) keysToDelete\<rparr>)"

definition clearCache :: "api_state \<Rightarrow> api_state" where
  "clearCache st = st\<lparr>cache := []\<rparr>"

subsection \<open>One attempt and the retry loop of \<^verbatim>\<open>_makeRequest\<close>\<close>

text \<open>
  What one \<^verbatim>\<open>fetch\<close> exchange can give back: the \<^verbatim>\<open>fetch\<close> promise rejects, or it
  resolves to a response with \<^verbatim>\<open>ok\<close>, \<^verbatim>\<open>status\<close>, \<^verbatim>\<open>statusText\<close> and a body, or it stays
  pending for ever: lines 74 and 80 await the promises of \<^verbatim>\<open>fetch\<close> and of
  \<^verbatim>\<open>response.text()\<close> without a timeout or an abort signal. Reading the body can reject or
  stay pending as well; otherwise \<^verbatim>\<open>JSON.parse\<close> of the text either throws or yields a
  value.
\<close>

datatype text_outcome = TextRejected js_error | TextPending | TextUnparsable | TextParsed jsval

datatype fetch_outcome =
    FetchRejected js_error
  | FetchPending
  | FetchResponse bool nat string text_outcome

text \<open>
  The body of the \<^verbatim>\<open>try\<close> block (lines 59 to 93): the value returned or the error thrown,
  and \<open>None\<close> when one of the two awaited promises never settles, so that the block
  never comes to an end.
\<close>

definition attempt :: "fetch_outcome \<Rightarrow> outcome option" where
  "attempt response =
     (case response of
        FetchRejected e \<Rightarrow> Some (Inl e)
      | FetchPending \<Rightarrow> None
      | FetchResponse ok status statusText body \<Rightarrow>
          if \<not> ok then Some (Inl (Error (''HTTP '' @ show_nat status @ '': '' @ statusText)))
          else (case body of
              TextRejected e \<Rightarrow> Some (Inl e)
            | TextPending \<Rightarrow> None
            | TextUnparsable \<Rightarrow> Some (Inl (Error ''Invalid JSON response from server''))
            | TextParsed result \<Rightarrow>
                (case get_prop result ''success'' of
                   Inl e \<Rightarrow> Some (Inl e)
                 | Inr success \<Rightarrow>
                     if \<not> truthy success then
                       (case get_prop result ''message'' of
                          Inl e \<Rightarrow> Some (Inl e)
                        | Inr m \<Rightarrow> Some (Inl (new_Error (if truthy m then m else JStr ''Request failed''))))
                     else Some (Inr result))))"

text \<open>Whether the \<^verbatim>\<open>try\<close> block threw, so that the \<^verbatim>\<open>catch\<close> block of lines 95 to 104 runs.\<close>

fun threw :: "outcome option \<Rightarrow> bool" where
  "threw (Some (Inl error)) = True"
| "threw r = False"

text \<open>
  The observable effects of one invocation, in order: the \<open>i\<close>-th \<^verbatim>\<open>fetch\<close> and the call
  of \<^verbatim>\<open>_sleep\<close> with so many milliseconds.
\<close>

datatype effect = Fetch nat | Sleep nat

fun fetches :: "effect list \<Rightarrow> nat list" where
  "fetches [] = []"
| "fetches (Fetch i # es) = i # fetches es"
| "fetches (Sleep d # es) = fetches es"

fun sleeps :: "effect list \<Rightarrow> nat list" where
  "sleeps [] = []"
| "sleeps (Fetch i # es) = sleeps es"
| "sleeps (Sleep d # es) = d # sleeps es"

text \<open>
  \<^verbatim>\<open>_sleep\<close> (lines 172 to 174): the promise resolves when the timer set with
  \<^verbatim>\<open>setTimeout(resolve, ms)\<close> fires. This is the time the caller waits.
\<close>

definition sleep :: "nat \<Rightarrow> nat" where
  "sleep ms = setTimeout_delay ms"

text \<open>
  The \<^verbatim>\<open>for\<close> loop of lines 58 to 105, from the iteration \<open>attempt_no\<close> on. The transport
  gives the outcome of the \<open>i\<close>-th exchange of this invocation; the endpoint and the data
  only make up the body that is sent, which the transport stands for. The result is
  what the promise of \<^verbatim>\<open>_makeRequest\<close> settles with (\<open>Inr\<close> the value it resolves to, \<open>Inl\<close>
  the error it rejects with), or \<open>None\<close> when it never settles because an attempt never
  comes to an end, together with the effects. A loop that ran out without returning or
  throwing would make the async function resolve to \<^verbatim>\<open>undefined\<close>.
\<close>

function makeRequest_loop ::
  "(nat \<Rightarrow> fetch_outcome) \<Rightarrow> nat \<Rightarrow> nat \<Rightarrow> nat \<Rightarrow> outcome option \<times> effect list" where
  "makeRequest_loop transport maxRetries retryDelay attempt_no =
     (if attempt_no \<le> maxRetries then
        (case attempt (transport attempt_no) of
           None \<Rightarrow> (None, [Fetch attempt_no])
         | Some (Inr result) \<Rightarrow> (Some (Inr result), [Fetch attempt_no])
         | Some (Inl error) \<Rightarrow>
             if attempt_no = maxRetries then
               (Some (Inl (Error (''API request failed after '' @ show_nat maxRetries
                                   @ '' attempts: '' @ message error))),
                [Fetch attempt_no])
             else
               (let (r, es) = makeRequest_loop transport maxRetries retryDelay (attempt_no + 1)
                in (r, Fetch attempt_no # Sleep (retryDelay * 2 ^ (attempt_no - 1)) # es)))
      else (Some (Inr JUndefined), []))"
  by pat_completeness auto
termination
  by (relation "measure (\<lambda>(transport, maxRetries, retryDelay, attempt_no). Suc maxRetries - attempt_no)") auto

text \<open>\<^verbatim>\<open>options.retries || 3\<close> and \<^verbatim>\<open>options.retryDelay || 1000\<close>: absent and 0 give the default.\<close>

definition maxRetries_of :: "options \<Rightarrow> nat" where
  "maxRetries_of opts = (case opt_retries opts of None \<Rightarrow> 3 | Some n \<Rightarrow> if n = 0 then 3 else n)"

definition retryDelay_of :: "options \<Rightarrow> nat" where
  "retryDelay_of opts = (case opt_retryDelay opts of None \<Rightarrow> 1000 | Some d \<Rightarrow> if d = 0 then 1000 else d)"

definition makeRequest ::
  "(nat \<Rightarrow> fetch_outcome) \<Rightarrow> options \<Rightarrow> outcome option \<times> effect list" where
  "makeRequest transport opts =
     makeRequest_loop transport (maxRetries_of opts) (retryDelay_of opts) 1"

text \<open>The trace of a run whose last attempt is the \<open>k\<close>-th, with base delay \<open>d\<close>.\<close>

definition backoff_trace :: "nat \<Rightarrow> nat \<Rightarrow> effect list" where
  "backoff_trace d k = concat (map (\<lambda>i. [Fetch i, Sleep (d * 2 ^ (i - 1))]) [1..<k]) @ [Fetch k]"

text \<open>The same from the attempt \<open>a\<close> on.\<close>

definition trace_from :: "nat \<Rightarrow> nat \<Rightarrow> nat \<Rightarrow> effect list" where
  "trace_from d a k = concat (map (\<lambda>i. [Fetch i, Sleep (d * 2 ^ (i - 1))]) [a..<k]) @ [Fetch k]"

subsection \<open>\<^verbatim>\<open>request\<close>: cache, in-flight queue, continuation\<close>

text \<open>
  \<^verbatim>\<open>request\<close> is an async function. Its synchronous part (lines 18 to 32) runs when it
  is called and ends in one of three ways, which is what the caller holds afterwards:
  the cached value, the promise already in the queue, or a promise just created by
  calling \<^verbatim>\<open>_makeRequest\<close>. The caller's own promise settles with the cached value,
  respectively with whatever the promise \<open>p\<close> settles with: the shared promise is
  returned as it is (line 28), and the starter returns the awaited result or lets the
  error propagate through \<^verbatim>\<open>finally\<close> (lines 35 to 48).
\<close>

datatype handle = Immediate jsval | Joined nat | Started nat

text \<open>
  Line 18, with the default \<^verbatim>\<open>data = {}\<close> of line 17 for a payload that is left out, and
  line 19.
\<close>

definition cacheKey_of :: "string \<Rightarrow> jsval \<Rightarrow> options \<Rightarrow> string" where
  "cacheKey_of endpoint data opts =
     (let data = (if data = JUndefined then JObj [] else data)
      in case opt_cacheKey opts of
           None \<Rightarrow> generateCacheKey endpoint data
         | Some k \<Rightarrow> if k = [] then generateCacheKey endpoint data else k)"

definition method_of :: "options \<Rightarrow> string" where
  "method_of opts = (case opt_method opts of None \<Rightarrow> ''POST'' | Some m \<Rightarrow> if m = [] then ''POST'' else m)"

text \<open>
  Lines 31 and 32: \<^verbatim>\<open>_makeRequest\<close> is invoked, which adds an invocation with a pending
  promise, and that promise is put in the queue under the key.
\<close>

definition launch :: "api_state \<Rightarrow> string \<Rightarrow> jsval \<Rightarrow> options \<Rightarrow> api_state" where
  "launch st endpoint data opts =
     st\<lparr>launched := launched st @ [((endpoint, data, method_of opts, opts), None)],
        requestQueue := Map_set (requestQueue st) (cacheKey_of endpoint data opts) (length (launched st))\<rparr>"

definition request_begin :: "api_state \<Rightarrow> string \<Rightarrow> jsval \<Rightarrow> options \<Rightarrow> handle \<times> api_state" where
  "request_begin st endpoint data opts =
     (let cacheKey = cacheKey_of endpoint data opts;
          method = method_of opts
      in if method = ''GET'' \<and> Map_has (cache st) cacheKey then
           (Immediate (case Map_get (cache st) cacheKey of None \<Rightarrow> JUndefined | Some v \<Rightarrow> v), st)
         else if Map_has (requestQueue st) cacheKey then
           (case Map_get (requestQueue st) cacheKey of
              None \<Rightarrow> (Immediate JUndefined, st)
            | Some p \<Rightarrow> (Joined p, st))
         else (Started (length (launched st)), launch st endpoint data opts))"

text \<open>
  The continuation of the starter after \<^verbatim>\<open>await requestPromise\<close> (lines 35 to 48), run
  at time \<open>now\<close> with the outcome of the promise: a successful GET with a truthy
  \<^verbatim>\<open>cacheTime\<close> is cached and its eviction timer is set, due after the delay that
  \<^verbatim>\<open>setTimeout\<close> makes of \<^verbatim>\<open>cacheTime\<close>; the queue entry is deleted in either case.
\<close>

definition request_finish ::
  "api_state \<Rightarrow> nat \<Rightarrow> string \<Rightarrow> jsval \<Rightarrow> options \<Rightarrow> outcome \<Rightarrow> outcome \<times> api_state" where
  "request_finish st now endpoint data opts outcome =
     (let cacheKey = cacheKey_of endpoint data opts;
          method = method_of opts;
          st1 = (case outcome of
                   Inl error \<Rightarrow> st
                 | Inr result \<Rightarrow>
                     (case opt_cacheTime opts of
                        None \<Rightarrow> st
                      | Some ttl \<Rightarrow>
                          if method = ''GET'' \<and> ttl \<noteq> 0 then
                            st\<lparr>cache := Map_set (cache st) cacheKey result,
                               timers := timers st @ [(now + setTimeout_delay ttl, cacheKey)]\<rparr>
                          else st))
      in (outcome, st1\<lparr>requestQueue := Map_delete (requestQueue st1) cacheKey\<rparr>))"

text \<open>
  The promise \<open>p\<close> settles at time \<open>now\<close>: the invocation has run against the transport
  (its exchanges are counted here), its outcome is recorded, and the starter's
  continuation runs. A promise settles once. When the invocation never settles against
  this transport, there is nothing to settle: the promise stays pending and the state
  is as it was.
\<close>

definition settle :: "api_state \<Rightarrow> nat \<Rightarrow> nat \<Rightarrow> (nat \<Rightarrow> fetch_outcome) \<Rightarrow> api_state" where
  "settle st now p transport =
     (if p < length (launched st) then
        (case launched st ! p of
           (args, Some done) \<Rightarrow> st
         | ((endpoint, data, method, opts), None) \<Rightarrow>
             (case makeRequest transport opts of
                (None, effects) \<Rightarrow> st
              | (Some outcome, effects) \<Rightarrow>
                  (let st1 = st\<lparr>launched := (launched st)[p := ((endpoint, data, method, opts), Some outcome)],
                                exchanges := exchanges st + length (fetches effects)\<rparr>
                   in snd (request_finish st1 now endpoint data opts outcome))))
      else st)"

text \<open>What the caller holding \<open>h\<close> has received in state \<open>st\<close>, if its promise has settled.\<close>

fun outcome_of :: "api_state \<Rightarrow> handle \<Rightarrow> outcome option" where
  "outcome_of st (Immediate v) = Some (Inr v)"
| "outcome_of st (Joined p) = (if p < length (launched st) then snd (launched st ! p) else None)"
| "outcome_of st (Started p) = (if p < length (launched st) then snd (launched st ! p) else None)"

text \<open>The clock reaches \<open>t\<close>: every timer that is due runs its callback (line 41).\<close>

definition advance :: "api_state \<Rightarrow> nat \<Rightarrow> api_state" where
  "advance st t =
     st\<lparr>cache := foldl Map_delete (cache st) (map snd (filter (\<lambda>(due, k). due \<le> t) (timers st))),
        timers := filter (\<lambda>(due, k). \<not> due \<le> t) (timers st)\<rparr>"

text \<open>
  The life of the service as a sequence of events: a call of \<^verbatim>\<open>request\<close>, the settlement of
  a promise, the clock reaching a time, a call of \<^verbatim>\<open>clearUserCache\<close> or of \<^verbatim>\<open>clearCache\<close>.
\<close>

datatype api_event =
    Call string jsval options
  | Settle nat nat "nat \<Rightarrow> fetch_outcome"
  | Tick nat
  | ClearUserCache string
  | ClearCache

fun api_step :: "api_state \<Rightarrow> api_event \<Rightarrow> api_state" where
  "api_step st (Call endpoint data opts) = snd (request_begin st endpoint data opts)"
| "api_step st (Settle now p transport) = settle st now p transport"
| "api_step st (Tick t) = advance st t"
| "api_step st (ClearUserCache email) = clearUserCache st email"
| "api_step st ClearCache = clearCache st"

text \<open>
  What holds of the queue in every state these events lead to from the fresh service: a
  pending invocation is the one the queue holds under its key, and if its method is GET
  its key is not in the cache.
\<close>

fun launch_key :: "(string \<times> jsval \<times> string \<times> options) \<Rightarrow> string" where
  "launch_key (endpoint, data, method, opts) = cacheKey_of endpoint data opts"

fun launch_options :: "(string \<times> jsval \<times> string \<times> options) \<Rightarrow> options" where
  "launch_options (endpoint, data, method, opts) = opts"

fun launch_method :: "(string \<times> jsval \<times> string \<times> options) \<Rightarrow> string" where
  "launch_method (endpoint, data, method, opts) = method"

definition pending_ok :: "api_state \<Rightarrow> nat \<Rightarrow> bool" where
  "pending_ok st p \<longleftrightarrow>
     Map_get (requestQueue st) (launch_key (fst (launched st ! p))) = Some p
   \<and> launch_method (fst (launched st ! p)) = method_of (launch_options (fst (launched st ! p)))
   \<and> \<not> (launch_method (fst (launched st ! p)) = ''GET''
          \<and> Map_has (cache st) (launch_key (fst (launched st ! p))))"

definition consistent :: "api_state \<Rightarrow> bool" where
  "consistent st \<longleftrightarrow>
     list_all (\<lambda>p. snd (launched st ! p) \<noteq> None \<or> pending_ok st p) [0..<length (launched st)]"

text \<open>And every entry of the queue is the promise of a pending invocation made under that key.\<close>

definition queue_ok :: "api_state \<Rightarrow> bool" where
  "queue_ok st \<longleftrightarrow>
     list_all (\<lambda>(k, p). p < length (launched st) \<and> snd (launched st ! p) = None
                        \<and> launch_key (fst (launched st ! p)) = k) (requestQueue st)"

text \<open>
  What holds of the timers as long as neither \<^verbatim>\<open>clearUserCache\<close> nor \<^verbatim>\<open>clearCache\<close> has been
  called: the pending timers have pairwise distinct keys, each with an entry in the
  cache.
\<close>

definition timers_ok :: "api_state \<Rightarrow> bool" where
  "timers_ok st \<longleftrightarrow>
     distinct (map snd (timers st))
   \<and> list_all (\<lambda>k. Map_has (cache st) k) (map snd (timers st))"

fun no_clear :: "api_event \<Rightarrow> bool" where
  "no_clear (ClearUserCache email) = False"
| "no_clear ClearCache = False"
| "no_clear ev = True"

text \<open>No eviction timer that is pending for \<open>key\<close> is due before \<open>due\<close>.\<close>

definition no_timer_before :: "api_state \<Rightarrow> string \<Rightarrow> nat \<Rightarrow> bool" where
  "no_timer_before st key due \<longleftrightarrow> list_all (\<lambda>(d, k). k \<noteq> key \<or> due \<le> d) (timers st)"

text \<open>Whether the continuation stores the outcome in the cache (line 38).\<close>

definition stores :: "options \<Rightarrow> outcome \<Rightarrow> bool" where
  "stores opts outcome \<longleftrightarrow>
     (case outcome of
        Inl e \<Rightarrow> False
      | Inr result \<Rightarrow>
          (case opt_cacheTime opts of None \<Rightarrow> False | Some ttl \<Rightarrow> method_of opts = ''GET'' \<and> ttl \<noteq> 0))"

text \<open>
  An event that is neither the clock reaching \<open>due\<close> or later nor a clearing of the cache
  that takes the entry of \<open>key\<close>.
\<close>

fun keeps :: "string \<Rightarrow> nat \<Rightarrow> api_event \<Rightarrow> bool" where
  "keeps key due (Tick t) = (t < due)"
| "keeps key due (ClearUserCache email) = (\<not> str_includes key email)"
| "keeps key due ClearCache = False"
| "keeps key due ev = True"

text \<open>\<open>n\<close> calls of \<^verbatim>\<open>request\<close> with the same arguments, none of them settled in between.\<close>

fun request_many ::
  "api_state \<Rightarrow> string \<Rightarrow> jsval \<Rightarrow> options \<Rightarrow> nat \<Rightarrow> handle list \<times> api_state" where
  "request_many st endpoint data opts 0 = ([], st)"
| "request_many st endpoint data opts (Suc n) =
     (let (h, st1) = request_begin st endpoint data opts;
          (hs, st2) = request_many st1 endpoint data opts n
      in (h # hs, st2))"

section \<open>AuthService (auth.js)\<close>

text \<open>
  The session state: \<^verbatim>\<open>this.currentUser\<close> and the browser's \<^verbatim>\<open>localStorage\<close>, of which
  the service uses the entries \<^verbatim>\<open>userEmail\<close>, \<^verbatim>\<open>userData\<close> and \<^verbatim>\<open>sessionExpiry\<close>. The calls
  of \<^verbatim>\<open>Utils.showNotification\<close> are kept as a log of (message, type); the loading
  spinner and \<^verbatim>\<open>console.error\<close> touch nothing else and are left out. The clock
  (\<^verbatim>\<open>Date.now()\<close>) is the argument \<open>now\<close>, and the outcome of the awaited API call is
  an argument: \<open>Inl\<close> the error the promise rejected with, \<open>Inr\<close> the value it resolved
  to.
\<close>

record auth_state =
  currentUser :: jsval
  localStorage :: "string \<rightharpoonup> string"
  notifications :: "(string \<times> string) list"

definition sessionTimeout :: nat where
  "sessionTimeout = 24 * 60 * 60 * 1000"

definition auth_init :: auth_state where
  "auth_init = \<lparr>currentUser = JNull, localStorage = Map.empty, notifications = []\<rparr>"

text \<open>
  \<^verbatim>\<open>_setUserSession\<close> (lines 131 to 138). Reading \<^verbatim>\<open>user.email\<close> throws when \<^verbatim>\<open>user\<close> is
  \<^verbatim>\<open>undefined\<close> or \<^verbatim>\<open>null\<close>, after \<^verbatim>\<open>this.currentUser\<close> has been assigned; the result is the
  error thrown, if any, and the state reached.
\<close>

definition setUserSession :: "auth_state \<Rightarrow> nat \<Rightarrow> jsval \<Rightarrow> js_error option \<times> auth_state" where
  "setUserSession st now user =
     (let st1 = st\<lparr>currentUser := user\<rparr>;
          expiry = now + sessionTimeout
      in case get_prop user ''email'' of
           Inl e \<Rightarrow> (Some e, st1)
         | Inr email \<Rightarrow>
             (None,
              st1\<lparr>localStorage := (localStorage st1)
                 (''userEmail'' \<mapsto> js_String email,
                  ''userData'' \<mapsto> (case JSON_stringify user of None \<Rightarrow> ''undefined'' | Some s \<Rightarrow> s),
                  ''sessionExpiry'' \<mapsto> show_nat expiry)\<rparr>))"

datatype auth_result = AuthSuccess jsval | AuthFailure string

text \<open>The \<^verbatim>\<open>catch\<close> block shared by \<^verbatim>\<open>login\<close> and \<^verbatim>\<open>register\<close> (lines 38 to 41, 63 to 66).\<close>

definition auth_catch :: "auth_state \<Rightarrow> js_error \<Rightarrow> auth_result \<times> auth_state" where
  "auth_catch st error =
     (AuthFailure (message error),
      st\<lparr>notifications := notifications st @ [(message error, ''error'')]\<rparr>)"

text \<open>
  The body shared by \<^verbatim>\<open>login\<close> (lines 25 to 45) and \<^verbatim>\<open>register\<close> (lines 50 to 70), which
  differ in the API method awaited and in the text of the success notification.
\<close>

definition authenticate :: "string \<Rightarrow> auth_state \<Rightarrow> nat \<Rightarrow> outcome \<Rightarrow> auth_result \<times> auth_state" where
  "authenticate welcome st now api_outcome =
     (case api_outcome of
        Inl error \<Rightarrow> auth_catch st error
      | Inr result \<Rightarrow>
          (case get_prop result ''success'' of
             Inl error \<Rightarrow> auth_catch st error
           | Inr success \<Rightarrow>
               if truthy success then
                 (case get_prop result ''user'' of
                    Inl error \<Rightarrow> auth_catch st error
                  | Inr user \<Rightarrow>
                      (case setUserSession st now user of
                         (Some error, st1) \<Rightarrow> auth_catch st1 error
                       | (None, st1) \<Rightarrow>
                           (AuthSuccess user,
                            st1\<lparr>notifications := notifications st1 @ [(welcome, ''success'')]\<rparr>)))
               else
                 (case get_prop result ''message'' of
                    Inl error \<Rightarrow> auth_catch st error
                  | Inr m \<Rightarrow> auth_catch st (new_Error m))))"

definition login :: "auth_state \<Rightarrow> nat \<Rightarrow> outcome \<Rightarrow> auth_result \<times> auth_state" where
  "login = authenticate ''Login successful!''"




text \<open>
  The life of a session as a sequence of timed events. \<open>session_written st ev\<close> says
  that the event, arriving in state \<open>st\<close>, runs \<^verbatim>\<open>_setUserSession\<close> to its end, and
  \<open>last_written\<close> follows the time of the last event that did so since the last logout.
\<close>

datatype auth_event = Login outcome | Register outcome | Refresh outcome | Logout


definition not_nullish :: "jsval \<Rightarrow> bool" where
  "not_nullish user = (user \<noteq> JUndefined \<and> user \<noteq> JNull)"

definition granted_user :: "outcome \<Rightarrow> jsval option" where
  "granted_user out =
     (case out of
        Inl error \<Rightarrow> None
      | Inr result \<Rightarrow>
          (case get_prop result ''success'' of
             Inl error \<Rightarrow> None
           | Inr success \<Rightarrow>
               if truthy success then
                 (case get_prop result ''user'' of Inl error \<Rightarrow> None | Inr user \<Rightarrow> Some user)
               else None))"




section \<open>Example inputs\<close>

definition no_options :: options where
  "no_options = \<lparr>opt_cacheKey = None, opt_method = None, opt_cacheTime = None,
                  opt_retries = None, opt_retryDelay = None\<rparr>"

definition stats_options :: options where
  "stats_options = \<lparr>opt_cacheKey = Some ''stats_a@b.com'', opt_method = Some ''GET'',
                     opt_cacheTime = Some 30000, opt_retries = None, opt_retryDelay = None\<rparr>"

text \<open>The same key and method without a \<^verbatim>\<open>cacheTime\<close>, and with one of \<open>2^31\<close> ms.\<close>

definition uncached_stats_options :: options where
  "uncached_stats_options = \<lparr>opt_cacheKey = Some ''stats_a@b.com'', opt_method = Some ''GET'',
                              opt_cacheTime = None, opt_retries = None, opt_retryDelay = None\<rparr>"

definition long_cache_options :: options where
  "long_cache_options = \<lparr>opt_cacheKey = Some ''stats_a@b.com'', opt_method = Some ''GET'',
                          opt_cacheTime = Some 2147483648, opt_retries = None, opt_retryDelay = None\<rparr>"

text \<open>A call that supplies its retry policy: \<^verbatim>\<open>{retries: n, retryDelay: d}\<close>.\<close>

definition retry_options :: "nat \<Rightarrow> nat \<Rightarrow> options" where
  "retry_options n d = \<lparr>opt_cacheKey = None, opt_method = None, opt_cacheTime = None,
                         opt_retries = Some n, opt_retryDelay = Some d\<rparr>"

definition alice :: jsval where
  "alice = JObj [(''email'', JStr ''a@b.com''), (''plan'', JStr ''free'')]"

definition login_ok :: jsval where
  "login_ok = JObj [(''success'', JBool True), (''user'', alice)]"


definition login_refused :: jsval where
  "login_refused = JObj [(''success'', JBool False), (''message'', JStr ''User not found'')]"

definition respond :: "jsval \<Rightarrow> fetch_outcome" where
  "respond body = FetchResponse True 200 ''OK'' (TextParsed body)"

definition network_down :: fetch_outcome where
  "network_down = FetchRejected (TypeError ''Failed to fetch'')"

text \<open>A transport that fails on the first \<open>n\<close> exchanges and then answers \<open>body\<close>.\<close>

definition fails_then :: "nat \<Rightarrow> jsval \<Rightarrow> nat \<Rightarrow> fetch_outcome" where
  "fails_then n body i = (if i \<le> n then network_down else respond body)"

text \<open>A server that answers with its headers and then never sends the body.\<close>

definition stalled_body :: fetch_outcome where
  "stalled_body = FetchResponse True 200 ''OK'' TextPending"

definition login_payload :: jsval where
  "login_payload = JObj [(''email'', JStr ''a@b.com'')]"

definition stats_payload :: jsval where
  "stats_payload = JObj [(''email'', JStr ''a@b.com'')]"

definition stats_body :: jsval where
  "stats_body = JObj [(''success'', JBool True), (''posts'', JNum 3)]"

text \<open>
  The statistics are fetched and stored at time 0 and cleared with the user's cache
  before their 30 s are over.
\<close>

definition stored_then_cleared :: "api_event list" where
  "stored_then_cleared =
     [Call ''post.stats'' stats_payload stats_options, Settle 0 0 (\<lambda>i. respond stats_body),
      ClearUserCache ''a@b.com'']"

text \<open>A request for the statistics is pending.\<close>

definition stats_pending :: "api_event list" where
  "stats_pending = [Call ''post.stats'' stats_payload stats_options]"

text \<open>
  What goes on while an entry stored at 40000 ms with 30 s to live is in the cache: a
  login is started and fails, another user's cache is cleared, and the clock goes to
  69999 ms.
\<close>

definition meanwhile :: "api_event list" where
  "meanwhile =
     [Call ''user.login'' login_payload no_options, Tick 50000, ClearUserCache ''c@d.com'',
      Settle 50500 2 (\<lambda>i. network_down), Tick 69999]"

definition payload_email_first :: jsval where
  "payload_email_first = JObj [(''email'', JStr ''a@b.com''), (''limit'', JNum 50)]"

definition payload_limit_first :: jsval where
  "payload_limit_first = JObj [(''limit'', JNum 50), (''email'', JStr ''a@b.com'')]"

definition three_users :: api_state where
  "three_users = api_init\<lparr>cache :=
     [(''stats_a@b.com'', JObj [(''success'', JBool True), (''posts'', JNum 1)]),
      (''stats_aa@b.com'', JObj [(''success'', JBool True), (''posts'', JNum 2)]),
      (''stats_c@d.com'', JObj [(''success'', JBool True), (''posts'', JNum 3)])]\<rparr>"

declare show_nat.simps [simp del]
declare makeRequest_loop.simps [simp del]

section \<open>The retry loop\<close>

lemma trace_from_step: "a < k \<Longrightarrow> trace_from d a k = Fetch a # Sleep (d * 2 ^ (a - 1)) # trace_from d (Suc a) k"
  by (simp add: trace_from_def upt_conv_Cons)

lemma trace_from_last: "trace_from d k k = [Fetch k]"
  by (simp add: trace_from_def)

lemma backoff_trace_from: "backoff_trace d k = trace_from d 1 k"
  by (simp add: backoff_trace_def trace_from_def)

lemma threw_iff: "threw r \<longleftrightarrow> (\<exists>e. r = Some (Inl e))"
  by (cases r rule: threw.cases) simp_all

lemma loop_stop:
  assumes "a \<le> k" "k \<le> n" "\<forall>i. a \<le> i \<and> i < k \<longrightarrow> threw (attempt (t i))" "\<not> threw (attempt (t k))"
  shows "makeRequest_loop t n d a = (attempt (t k), trace_from d a k)"
  using assms
proof (induction "k - a" arbitrary: a)
  case 0
  then have "a = k" by simp
  with 0 show ?case
    by (cases "attempt (t k)" rule: threw.cases)
       (simp_all add: makeRequest_loop.simps [of t n d k] trace_from_last)
next
  case (Suc m)
  then have lt: "a < k" by simp
  with Suc.prems have fail: "threw (attempt (t a))" by simp
  then obtain e where e: "attempt (t a) = Some (Inl e)" by (auto simp: threw_iff)
  have IH: "makeRequest_loop t n d (Suc a) = (attempt (t k), trace_from d (Suc a) k)"
    using Suc.hyps(1) [of "Suc a"] Suc.hyps(2) Suc.prems lt by simp
  from lt Suc.prems(2) have "a \<le> n" "a \<noteq> n" by simp_all
  then show ?case
    by (simp add: makeRequest_loop.simps [of t n d a] e IH trace_from_step [OF lt])
qed

lemma loop_exhaust:
  assumes "a \<le> n" "\<forall>i. a \<le> i \<and> i \<le> n \<longrightarrow> threw (attempt (t i))" "attempt (t n) = Some (Inl e)"
  shows "makeRequest_loop t n d a =
     (Some (Inl (Error (''API request failed after '' @ show_nat n @ '' attempts: '' @ message e))),
      trace_from d a n)"
  using assms
proof (induction "n - a" arbitrary: a)
  case 0
  then have an: "a = n" by simp
  show ?case unfolding an
    by (simp add: makeRequest_loop.simps [of t n d n] 0(4) trace_from_last)
next
  case (Suc m)
  then have lt: "a < n" by simp
  with Suc.prems have "threw (attempt (t a))" by simp
  then obtain e' where e': "attempt (t a) = Some (Inl e')" by (auto simp: threw_iff)
  have IH: "makeRequest_loop t n d (Suc a) =
     (Some (Inl (Error (''API request failed after '' @ show_nat n @ '' attempts: '' @ message e))),
      trace_from d (Suc a) n)"
    using Suc.hyps(1) [of "Suc a"] Suc.hyps(2) Suc.prems lt by simp
  from lt have "a \<le> n" "a \<noteq> n" by simp_all
  then show ?case
    by (simp add: makeRequest_loop.simps [of t n d a] e' IH trace_from_step [OF lt])
qed

lemma fetches_trace_from: "a \<le> k \<Longrightarrow> fetches (trace_from d a k) = [a..<Suc k]"
proof (induction "k - a" arbitrary: a)
  case 0 then show ?case by (simp add: trace_from_last)
next
  case (Suc m)
  then have lt: "a < k" by simp
  have "fetches (trace_from d (Suc a) k) = [Suc a..<Suc k]"
    using Suc.hyps(1) [of "Suc a"] Suc.hyps(2) lt by simp
  with lt show ?case by (simp add: trace_from_step upt_conv_Cons)
qed

lemma sleeps_trace_from: "a \<le> k \<Longrightarrow> sleeps (trace_from d a k) = map (\<lambda>i. d * 2 ^ (i - 1)) [a..<k]"
proof (induction "k - a" arbitrary: a)
  case 0 then show ?case by (simp add: trace_from_last)
next
  case (Suc m)
  then have lt: "a < k" by simp
  have "sleeps (trace_from d (Suc a) k) = map (\<lambda>i. d * 2 ^ (i - 1)) [Suc a..<k]"
    using Suc.hyps(1) [of "Suc a"] Suc.hyps(2) lt by simp
  with lt show ?case by (simp add: trace_from_step upt_conv_Cons)
qed

lemma sum_backoff: "sum_list (map (\<lambda>i. d * 2 ^ (i - 1)) [1..<Suc m]) = (d::nat) * (2 ^ m - 1)"
proof (induction m)
  case 0 show ?case by simp
next
  case (Suc m)
  have "(1::nat) \<le> 2 ^ m" by simp
  then have "d * (2 ^ m - 1) + d * 2 ^ m = d * (2 ^ Suc m - 1)"
    by (simp add: algebra_simps diff_mult_distrib2) 
  with Suc show ?case by simp
qed

lemma total_wait: "1 \<le> k \<Longrightarrow> sum_list (sleeps (backoff_trace d k)) = d * (2 ^ (k - 1) - 1)"
  using sum_backoff [of d "k - 1"] by (simp add: backoff_trace_from sleeps_trace_from)

lemma setTimeout_delay_small: "ms < 2 ^ 31 \<Longrightarrow> setTimeout_delay ms = ms"
  by (simp add: setTimeout_delay_def)

lemma setTimeout_delay_le: "setTimeout_delay ms \<le> ms"
  by (simp add: setTimeout_delay_def Let_def)

lemma sleep_small: "ms < 2 ^ 31 \<Longrightarrow> sleep ms = ms"
  by (simp add: sleep_def setTimeout_delay_small)

lemma sleep_large: "2 ^ 31 \<le> ms \<and> ms < 2 ^ 32 \<Longrightarrow> sleep ms = 0"
  by (simp add: sleep_def setTimeout_delay_def)

lemma waited_le_requested: "sum_list (map sleep ds) \<le> sum_list ds"
  by (induction ds) (simp_all add: sleep_def add_mono setTimeout_delay_le)

lemma run_shape:
  assumes "1 \<le> n"
  shows "\<exists>k. 1 \<le> k \<and> k \<le> n \<and> snd (makeRequest_loop t n d 1) = trace_from d 1 k
           \<and> (\<forall>i. 1 \<le> i \<and> i < k \<longrightarrow> threw (attempt (t i)))
           \<and> fst (makeRequest_loop t n d 1) =
               (case attempt (t k) of
                  None \<Rightarrow> None
                | Some (Inr r) \<Rightarrow> Some (Inr r)
                | Some (Inl e) \<Rightarrow>
                    Some (Inl (Error (''API request failed after '' @ show_nat n @ '' attempts: '' @ message e))))
           \<and> (threw (attempt (t k)) \<longrightarrow> k = n)"
proof (cases "\<exists>i. 1 \<le> i \<and> i \<le> n \<and> \<not> threw (attempt (t i))")
  case True
  define k where "k = (LEAST i. 1 \<le> i \<and> i \<le> n \<and> \<not> threw (attempt (t i)))"
  from True have kp: "1 \<le> k \<and> k \<le> n \<and> \<not> threw (attempt (t k))"
    unfolding k_def by (rule LeastI_ex)
  have least: "\<And>i. 1 \<le> i \<and> i \<le> n \<and> \<not> threw (attempt (t i)) \<Longrightarrow> k \<le> i"
    unfolding k_def by (rule Least_le)
  have before: "\<forall>i. 1 \<le> i \<and> i < k \<longrightarrow> threw (attempt (t i))"
  proof (intro allI impI)
    fix i assume i: "1 \<le> i \<and> i < k"
    show "threw (attempt (t i))"
    proof (rule ccontr)
      assume "\<not> threw (attempt (t i))"
      with i kp have "k \<le> i" by (intro least) simp
      with i show False by simp
    qed
  qed
  have run: "makeRequest_loop t n d 1 = (attempt (t k), trace_from d 1 k)"
    using loop_stop [of 1 k n t d] kp before by simp
  from kp have same: "(case attempt (t k) of
                  None \<Rightarrow> None
                | Some (Inr r) \<Rightarrow> Some (Inr r)
                | Some (Inl e) \<Rightarrow>
                    Some (Inl (Error (''API request failed after '' @ show_nat n @ '' attempts: '' @ message e))))
              = attempt (t k)"
    by (cases "attempt (t k)" rule: threw.cases) simp_all
  from kp before run same show ?thesis by (intro exI [of _ k]) simp
next
  case False
  then have all: "\<forall>i. 1 \<le> i \<and> i \<le> n \<longrightarrow> threw (attempt (t i))" by blast
  with assms have "threw (attempt (t n))" by simp
  then obtain e where e: "attempt (t n) = Some (Inl e)" by (auto simp: threw_iff)
  have "makeRequest_loop t n d 1 =
     (Some (Inl (Error (''API request failed after '' @ show_nat n @ '' attempts: '' @ message e))),
      trace_from d 1 n)"
    using loop_exhaust [of 1 n t e d] assms all e by simp
  with assms all e show ?thesis by (intro exI [of _ n]) simp
qed

lemma maxRetries_pos: "1 \<le> maxRetries_of opts"
  by (simp add: maxRetries_of_def split: option.splits)

lemma maxRetries_supplied:
  assumes "opt_retries opts = Some n \<and> 0 < n \<and> limit = n
           \<or> (opt_retries opts = None \<or> opt_retries opts = Some 0) \<and> limit = 3"
  shows "maxRetries_of opts = limit"
  using assms by (auto simp: maxRetries_of_def)

lemma retryDelay_supplied:
  assumes "opt_retryDelay opts = Some d \<and> 0 < d \<and> base = d
           \<or> (opt_retryDelay opts = None \<or> opt_retryDelay opts = Some 0) \<and> base = 1000"
  shows "retryDelay_of opts = base"
  using assms by (auto simp: retryDelay_of_def)

lemma show_nat_3: "show_nat 3 = ''3''"
  by (simp add: show_nat.simps [of 3] digit_char_def)

lemma backoff_trace_3: "backoff_trace d 3 = [Fetch 1, Sleep d, Fetch 2, Sleep (d * 2), Fetch 3]"
  by (simp add: backoff_trace_def upt_rec)

lemma makeRequest_exhaust:
  assumes "\<forall>i. 1 \<le> i \<and> i \<le> maxRetries_of opts \<longrightarrow> attempt (transport i) = Some (Inl (cause i))"
  shows "makeRequest transport opts =
     (Some (Inl (Error (''API request failed after '' @ show_nat (maxRetries_of opts) @ '' attempts: ''
                        @ message (cause (maxRetries_of opts))))),
      backoff_trace (retryDelay_of opts) (maxRetries_of opts))"
proof -
  have pos: "1 \<le> maxRetries_of opts" by (rule maxRetries_pos)
  from assms have fails: "\<forall>i. 1 \<le> i \<and> i \<le> maxRetries_of opts \<longrightarrow> threw (attempt (transport i))"
    by simp
  from assms pos have last: "attempt (transport (maxRetries_of opts)) = Some (Inl (cause (maxRetries_of opts)))"
    by simp
  show ?thesis
    unfolding makeRequest_def backoff_trace_from
    by (rule loop_exhaust [OF pos fails last])
qed

lemma makeRequest_success:
  assumes "1 \<le> k" "k \<le> maxRetries_of opts"
    and "\<forall>i. 1 \<le> i \<and> i < k \<longrightarrow> threw (attempt (transport i))"
    and "attempt (transport k) = Some (Inr result)"
  shows "makeRequest transport opts = (Some (Inr result), backoff_trace (retryDelay_of opts) k)"
  unfolding makeRequest_def backoff_trace_from
  using loop_stop [OF assms(1) assms(2) assms(3)] assms(4) by simp

lemma makeRequest_pending:
  assumes "1 \<le> k" "k \<le> maxRetries_of opts"
    and "\<forall>i. 1 \<le> i \<and> i < k \<longrightarrow> threw (attempt (transport i))"
    and "attempt (transport k) = None"
  shows "makeRequest transport opts = (None, backoff_trace (retryDelay_of opts) k)"
  unfolding makeRequest_def backoff_trace_from
  using loop_stop [OF assms(1) assms(2) assms(3)] assms(4) by simp


lemma attempt_network_down: "attempt network_down = Some (Inl (TypeError ''Failed to fetch''))"
  by (simp add: attempt_def network_down_def)

lemma no_options_policy: "maxRetries_of no_options = 3" "retryDelay_of no_options = 1000"
  by (simp_all add: maxRetries_of_def retryDelay_of_def no_options_def)


lemma nth_trace_from:
  assumes "a \<le> i" "i < k"
  shows "trace_from d a k ! (2 * (i - a)) = Fetch i
       \<and> trace_from d a k ! (2 * (i - a) + 1) = Sleep (d * 2 ^ (i - 1))
       \<and> trace_from d a k ! (2 * (i - a) + 2) = Fetch (Suc i)"
  using assms
proof (induction "i - a" arbitrary: a)
  case 0
  then have ia: "a = i" by simp
  have "Suc i \<le> k" using 0 by simp
  then have "trace_from d (Suc i) k ! 0 = Fetch (Suc i)"
    by (cases "Suc i = k") (simp_all add: trace_from_last trace_from_step)
  with 0 show ?case unfolding ia by (simp add: trace_from_step)
next
  case (Suc m)
  then have lt: "a < i" by simp
  then have ak: "a < k" using Suc.prems by simp
  have IH: "trace_from d (Suc a) k ! (2 * (i - Suc a)) = Fetch i
       \<and> trace_from d (Suc a) k ! (2 * (i - Suc a) + 1) = Sleep (d * 2 ^ (i - 1))
       \<and> trace_from d (Suc a) k ! (2 * (i - Suc a) + 2) = Fetch (Suc i)"
    using Suc.hyps(1) [of "Suc a"] Suc.hyps(2) Suc.prems lt by simp
  have e: "2 * (i - a) = Suc (Suc (2 * (i - Suc a)))" using lt by simp
  show ?case unfolding e using IH by (simp add: trace_from_step [OF ak])
qed

lemma nth_backoff_trace:
  assumes "1 \<le> i" "i < k"
  shows "backoff_trace d k ! (2 * i - 2) = Fetch i
       \<and> backoff_trace d k ! (2 * i - 1) = Sleep (d * 2 ^ (i - 1))
       \<and> backoff_trace d k ! (2 * i) = Fetch (Suc i)"
proof -
  have a: "2 * i - 2 = 2 * (i - 1)" "2 * i - 1 = 2 * (i - 1) + 1" "2 * i = 2 * (i - 1) + 2"
    using assms by arith+
  have "backoff_trace d k ! (2 * i - 2) = trace_from d 1 k ! (2 * (i - 1))"
    by (simp only: backoff_trace_from a(1))
  moreover have "backoff_trace d k ! (2 * i - 1) = trace_from d 1 k ! (2 * (i - 1) + 1)"
    by (simp only: backoff_trace_from a(2))
  moreover have "backoff_trace d k ! (2 * i) = trace_from d 1 k ! (2 * (i - 1) + 2)"
    using a(3) by (simp only: backoff_trace_from)
  ultimately show ?thesis
    using nth_trace_from [OF assms, of d] by simp
qed

lemma makeRequest_shape:
  "\<exists>k. 1 \<le> k \<and> k \<le> maxRetries_of opts
       \<and> snd (makeRequest transport opts) = backoff_trace (retryDelay_of opts) k
       \<and> (\<forall>i. 1 \<le> i \<and> i < k \<longrightarrow> threw (attempt (transport i)))
       \<and> fst (makeRequest transport opts) =
            (case attempt (transport k) of
               None \<Rightarrow> None
             | Some (Inr r) \<Rightarrow> Some (Inr r)
             | Some (Inl e) \<Rightarrow>
                 Some (Inl (Error (''API request failed after '' @ show_nat (maxRetries_of opts)
                                   @ '' attempts: '' @ message e))))
       \<and> (threw (attempt (transport k)) \<longrightarrow> k = maxRetries_of opts)"
  unfolding makeRequest_def backoff_trace_from
  by (rule run_shape [OF maxRetries_pos])

lemma makeRequest_trace_nth:
  assumes "snd (makeRequest transport opts) = backoff_trace base k" "1 \<le> i" "i < k"
  shows "snd (makeRequest transport opts) ! (2 * i - 2) = Fetch i
       \<and> snd (makeRequest transport opts) ! (2 * i - 1) = Sleep (base * 2 ^ (i - 1))
       \<and> snd (makeRequest transport opts) ! (2 * i) = Fetch (i + 1)"
  unfolding assms(1) using nth_backoff_trace [OF assms(2) assms(3), of base] by simp

text \<open>
  Claim C3 as stated fails: a call that supplies the base delay 0 sleeps 1000 ms and
  2000 ms between its attempts, not 0 ms, because line 56 takes 1000 for a delay that is
  absent or 0; and with the base delay \<open>2^31\<close> ms the call asks for a sleep of \<open>2^31\<close> ms
  after the first failure, which \<^verbatim>\<open>setTimeout\<close> ends at once.
\<close>

theorem backoff_base_delay_counterexample:
  "makeRequest (fails_then 2 login_ok) (retry_options 3 0)
     = (Some (Inr login_ok), [Fetch 1, Sleep 1000, Fetch 2, Sleep 2000, Fetch 3])
   \<and> makeRequest (fails_then 1 login_ok) (retry_options 3 2147483648)
     = (Some (Inr login_ok), [Fetch 1, Sleep 2147483648, Fetch 2])
   \<and> sleep 2147483648 = 0"
proof -
  have a: "attempt (respond login_ok) = Some (Inr login_ok)"
    by (simp add: attempt_def respond_def login_ok_def)
  have p: "maxRetries_of (retry_options 3 0) = 3" "retryDelay_of (retry_options 3 0) = 1000"
    "maxRetries_of (retry_options 3 2147483648) = 3"
    "retryDelay_of (retry_options 3 2147483648) = 2147483648"
    by (simp_all add: maxRetries_of_def retryDelay_of_def retry_options_def)
  have 1: "makeRequest (fails_then 2 login_ok) (retry_options 3 0)
     = (Some (Inr login_ok), [Fetch 1, Sleep 1000, Fetch 2, Sleep 2000, Fetch 3])"
    using makeRequest_success [of 3 "retry_options 3 0" "fails_then 2 login_ok" login_ok]
    by (simp add: p fails_then_def attempt_network_down a backoff_trace_3)
  have 2: "makeRequest (fails_then 1 login_ok) (retry_options 3 2147483648)
     = (Some (Inr login_ok), [Fetch 1, Sleep 2147483648, Fetch 2])"
    using makeRequest_success [of 2 "retry_options 3 2147483648" "fails_then 1 login_ok" login_ok]
    by (simp add: p fails_then_def attempt_network_down a backoff_trace_def upt_rec)
  have 3: "sleep 2147483648 = 0"
    by (simp add: sleep_def setTimeout_delay_def)
  from 1 2 3 show ?thesis by simp
qed

text \<open>
  Claim C3, as the code has it. Let \<open>limit\<close> be the number of attempts the call supplies,
  or 3 when it supplies none or 0, and \<open>base\<close> the delay it supplies, or 1000 ms when it
  supplies none or 0. A run makes the attempts 1 to \<open>k\<close> for some \<open>k\<close> up to \<open>limit\<close>, and
  after each failed attempt \<open>i\<close> before the last one it calls \<^verbatim>\<open>_sleep\<close> with
  \<open>base * 2^(i-1)\<close> ms and then makes attempt \<open>i + 1\<close>; the sleep lasts that long when it is
  below \<open>2^31\<close> ms, and no time from \<open>2^31\<close> ms up to \<open>2^32\<close> ms. Every attempt below \<open>limit\<close>
  that was made and failed is followed in this way. With 3 attempts, a delay of 1000 ms and a transport that fails twice and then
  succeeds, the call succeeds on the third attempt after waiting 1000 ms and then
  2000 ms.
\<close>

theorem retry_backoff:
  assumes "opt_retries opts = Some n \<and> 0 < n \<and> limit = n
           \<or> (opt_retries opts = None \<or> opt_retries opts = Some 0) \<and> limit = 3"
    and "opt_retryDelay opts = Some d \<and> 0 < d \<and> base = d
           \<or> (opt_retryDelay opts = None \<or> opt_retryDelay opts = Some 0) \<and> base = 1000"
  shows "(\<exists>k. 1 \<le> k \<and> k \<le> limit
       \<and> fetches (snd (makeRequest transport opts)) = [1..<Suc k]
       \<and> (\<forall>i. 1 \<le> i \<and> i < k \<longrightarrow>
             threw (attempt (transport i))
           \<and> snd (makeRequest transport opts) ! (2 * i - 2) = Fetch i
           \<and> snd (makeRequest transport opts) ! (2 * i - 1) = Sleep (base * 2 ^ (i - 1))
           \<and> snd (makeRequest transport opts) ! (2 * i) = Fetch (i + 1)
           \<and> (base * 2 ^ (i - 1) < 2 ^ 31 \<longrightarrow> sleep (base * 2 ^ (i - 1)) = base * 2 ^ (i - 1))
           \<and> (2 ^ 31 \<le> base * 2 ^ (i - 1) \<and> base * 2 ^ (i - 1) < 2 ^ 32 \<longrightarrow> sleep (base * 2 ^ (i - 1)) = 0))
       \<and> (\<forall>i. 1 \<le> i \<and> i < limit \<and> (\<forall>j. 1 \<le> j \<and> j \<le> i \<longrightarrow> threw (attempt (transport j)))
             \<longrightarrow> i < k))
   \<and> (limit = 3 \<and> base = 1000
        \<and> threw (attempt (transport 1)) \<and> threw (attempt (transport 2))
        \<and> attempt (transport 3) = Some (Inr result)
      \<longrightarrow> makeRequest transport opts
            = (Some (Inr result), [Fetch 1, Sleep 1000, Fetch 2, Sleep 2000, Fetch 3])
          \<and> map sleep (sleeps (snd (makeRequest transport opts))) = [1000, 2000])"
proof (intro conjI impI)
  have lim: "maxRetries_of opts = limit" by (rule maxRetries_supplied [OF assms(1)])
  have bas: "retryDelay_of opts = base" by (rule retryDelay_supplied [OF assms(2)])
  obtain k where k: "1 \<le> k" "k \<le> limit"
      "snd (makeRequest transport opts) = backoff_trace base k"
      "\<forall>i. 1 \<le> i \<and> i < k \<longrightarrow> threw (attempt (transport i))"
      "threw (attempt (transport k)) \<longrightarrow> k = limit"
    using makeRequest_shape [of opts transport] unfolding lim bas by blast
  have f: "fetches (snd (makeRequest transport opts)) = [1..<Suc k]"
    using k(1) by (simp add: k(3) backoff_trace_from fetches_trace_from)
  have w: "\<forall>i. 1 \<le> i \<and> i < k \<longrightarrow>
             threw (attempt (transport i))
           \<and> snd (makeRequest transport opts) ! (2 * i - 2) = Fetch i
           \<and> snd (makeRequest transport opts) ! (2 * i - 1) = Sleep (base * 2 ^ (i - 1))
           \<and> snd (makeRequest transport opts) ! (2 * i) = Fetch (i + 1)
           \<and> (base * 2 ^ (i - 1) < 2 ^ 31 \<longrightarrow> sleep (base * 2 ^ (i - 1)) = base * 2 ^ (i - 1))
           \<and> (2 ^ 31 \<le> base * 2 ^ (i - 1) \<and> base * 2 ^ (i - 1) < 2 ^ 32 \<longrightarrow> sleep (base * 2 ^ (i - 1)) = 0)"
  proof (intro allI impI)
    fix i assume i: "1 \<le> i \<and> i < k"
    then have i1: "1 \<le> i" and i2: "i < k" by simp_all
    from i k(4) have t: "threw (attempt (transport i))" by simp
    note n = makeRequest_trace_nth [OF k(3) i1 i2]
    have s: "base * 2 ^ (i - 1) < 2 ^ 31 \<longrightarrow> sleep (base * 2 ^ (i - 1)) = base * 2 ^ (i - 1)"
      using sleep_small by blast
    have z: "2 ^ 31 \<le> base * 2 ^ (i - 1) \<and> base * 2 ^ (i - 1) < 2 ^ 32 \<longrightarrow> sleep (base * 2 ^ (i - 1)) = 0"
      using sleep_large by blast
    from t n s z
    show "threw (attempt (transport i))
           \<and> snd (makeRequest transport opts) ! (2 * i - 2) = Fetch i
           \<and> snd (makeRequest transport opts) ! (2 * i - 1) = Sleep (base * 2 ^ (i - 1))
           \<and> snd (makeRequest transport opts) ! (2 * i) = Fetch (i + 1)
           \<and> (base * 2 ^ (i - 1) < 2 ^ 31 \<longrightarrow> sleep (base * 2 ^ (i - 1)) = base * 2 ^ (i - 1))
           \<and> (2 ^ 31 \<le> base * 2 ^ (i - 1) \<and> base * 2 ^ (i - 1) < 2 ^ 32 \<longrightarrow> sleep (base * 2 ^ (i - 1)) = 0)"
      by blast
  qed
  have m: "\<forall>i. 1 \<le> i \<and> i < limit \<and> (\<forall>j. 1 \<le> j \<and> j \<le> i \<longrightarrow> threw (attempt (transport j)))
             \<longrightarrow> i < k"
  proof (intro allI impI)
    fix i assume i: "1 \<le> i \<and> i < limit \<and> (\<forall>j. 1 \<le> j \<and> j \<le> i \<longrightarrow> threw (attempt (transport j)))"
    show "i < k"
    proof (rule ccontr)
      assume "\<not> i < k"
      then have "k \<le> i" by simp
      with i k(1) have "threw (attempt (transport k))" by simp
      with k(5) have "k = limit" by simp
      with \<open>k \<le> i\<close> i show False by simp
    qed
  qed
  from k(1) k(2) f w m
  show "\<exists>k. 1 \<le> k \<and> k \<le> limit
       \<and> fetches (snd (makeRequest transport opts)) = [1..<Suc k]
       \<and> (\<forall>i. 1 \<le> i \<and> i < k \<longrightarrow>
             threw (attempt (transport i))
           \<and> snd (makeRequest transport opts) ! (2 * i - 2) = Fetch i
           \<and> snd (makeRequest transport opts) ! (2 * i - 1) = Sleep (base * 2 ^ (i - 1))
           \<and> snd (makeRequest transport opts) ! (2 * i) = Fetch (i + 1)
           \<and> (base * 2 ^ (i - 1) < 2 ^ 31 \<longrightarrow> sleep (base * 2 ^ (i - 1)) = base * 2 ^ (i - 1))
           \<and> (2 ^ 31 \<le> base * 2 ^ (i - 1) \<and> base * 2 ^ (i - 1) < 2 ^ 32 \<longrightarrow> sleep (base * 2 ^ (i - 1)) = 0))
       \<and> (\<forall>i. 1 \<le> i \<and> i < limit \<and> (\<forall>j. 1 \<le> j \<and> j \<le> i \<longrightarrow> threw (attempt (transport j)))
             \<longrightarrow> i < k)"
    by blast
next
  assume a: "limit = 3 \<and> base = 1000
        \<and> threw (attempt (transport 1)) \<and> threw (attempt (transport 2))
        \<and> attempt (transport 3) = Some (Inr result)"
  have lim: "maxRetries_of opts = 3" using maxRetries_supplied [OF assms(1)] a by simp
  have bas: "retryDelay_of opts = 1000" using retryDelay_supplied [OF assms(2)] a by simp
  have before: "\<forall>i. 1 \<le> i \<and> i < 3 \<longrightarrow> threw (attempt (transport i))"
  proof (intro allI impI)
    fix i :: nat assume "1 \<le> i \<and> i < 3"
    then have "i = 1 \<or> i = 2" by auto
    with a show "threw (attempt (transport i))" by auto
  qed
  have "makeRequest transport opts = (Some (Inr result), backoff_trace (retryDelay_of opts) 3)"
    using makeRequest_success [of 3 opts transport result] a before lim by simp
  then have run: "makeRequest transport opts
            = (Some (Inr result), [Fetch 1, Sleep 1000, Fetch 2, Sleep 2000, Fetch 3])"
    by (simp add: bas backoff_trace_3)
  then show "makeRequest transport opts
            = (Some (Inr result), [Fetch 1, Sleep 1000, Fetch 2, Sleep 2000, Fetch 3])" .
  show "map sleep (sleeps (snd (makeRequest transport opts))) = [1000, 2000]"
    by (simp add: run sleep_small)
qed

lemma attempt_respond_login_ok: "attempt (respond login_ok) = Some (Inr login_ok)"
  by (simp add: attempt_def respond_def login_ok_def)

text \<open>
  A call that supplies 3 attempts and a delay of 1000 ms, against a transport that is
  down twice and then answers.
\<close>

theorem retry_backoff_witness:
  "makeRequest (fails_then 2 login_ok) (retry_options 3 1000)
     = (Some (Inr login_ok), [Fetch 1, Sleep 1000, Fetch 2, Sleep 2000, Fetch 3])
   \<and> map sleep (sleeps (snd (makeRequest (fails_then 2 login_ok) (retry_options 3 1000)))) = [1000, 2000]"
proof -
  have r: "opt_retries (retry_options 3 1000) = Some 3 \<and> (0::nat) < 3 \<and> (3::nat) = 3
           \<or> (opt_retries (retry_options 3 1000) = None \<or> opt_retries (retry_options 3 1000) = Some 0)
             \<and> (3::nat) = 3"
    by (simp add: retry_options_def)
  have d: "opt_retryDelay (retry_options 3 1000) = Some 1000 \<and> (0::nat) < 1000 \<and> (1000::nat) = 1000
           \<or> (opt_retryDelay (retry_options 3 1000) = None \<or> opt_retryDelay (retry_options 3 1000) = Some 0)
             \<and> (1000::nat) = 1000"
    by (simp add: retry_options_def)
  have h: "(3::nat) = 3 \<and> (1000::nat) = 1000
        \<and> threw (attempt (fails_then 2 login_ok 1)) \<and> threw (attempt (fails_then 2 login_ok 2))
        \<and> attempt (fails_then 2 login_ok 3) = Some (Inr login_ok)"
    by (simp add: fails_then_def attempt_network_down attempt_respond_login_ok)
  from retry_backoff [OF r d, of "fails_then 2 login_ok" login_ok, THEN conjunct2, rule_format, OF h]
  show ?thesis .
qed



lemma attempt_refused:
  assumes "get_prop body ''success'' = Inr (JBool False)" "get_prop body ''message'' = Inr (JStr m)" "m \<noteq> []"
  shows "attempt (FetchResponse True status statusText (TextParsed body)) = Some (Inl (Error m))"
  using assms by (simp add: attempt_def new_Error_def)

lemma attempt_refused_no_message:
  assumes "get_prop body ''success'' = Inr (JBool False)" "get_prop body ''message'' = Inr JUndefined"
  shows "attempt (FetchResponse True status statusText (TextParsed body)) = Some (Inl (Error ''Request failed''))"
  using assms by (simp add: attempt_def new_Error_def)

lemma loop_one:
  assumes "a \<le> n" "\<not> threw (attempt (t a))"
  shows "makeRequest_loop t n d a = (attempt (t a), [Fetch a])"
proof -
  have "\<forall>i. a \<le> i \<and> i < a \<longrightarrow> threw (attempt (t i))" by auto
  from loop_stop [OF le_refl assms(1) this assms(2), of d] show ?thesis
    by (simp add: trace_from_last)
qed



lemma login_refused_props:
  "get_prop login_refused ''success'' = Inr (JBool False)"
  "get_prop login_refused ''message'' = Inr (JStr ''User not found'')"
  by (simp_all add: login_refused_def)


text \<open>
  Claim C9 as stated fails: a call whose \<^verbatim>\<open>fetch\<close> stays pending never settles, and neither
  does one whose second exchange delivers the headers and then no body; the caller of
  \<^verbatim>\<open>request\<close> is left without an outcome. Lines 74 and 80 await both promises without a
  timeout.
\<close>

theorem pending_exchange_counterexample:
  "makeRequest (\<lambda>i. FetchPending) no_options = (None, [Fetch 1])
   \<and> makeRequest (\<lambda>i. if i = 1 then network_down else stalled_body) no_options
       = (None, [Fetch 1, Sleep 1000, Fetch 2])
   \<and> outcome_of (settle (snd (request_begin api_init ''user.login'' login_payload no_options)) 5000 0
                    (\<lambda>i. FetchPending))
       (Started 0) = None"
proof -
  have 1: "makeRequest (\<lambda>i. FetchPending) no_options = (None, [Fetch 1])"
    using makeRequest_pending [of 1 no_options "\<lambda>i. FetchPending"]
    by (simp add: no_options_policy attempt_def backoff_trace_def)
  have s: "attempt stalled_body = None"
    by (simp add: attempt_def stalled_body_def)
  have b: "\<forall>i::nat. 1 \<le> i \<and> i < 2 \<longrightarrow> threw (attempt (if i = 1 then network_down else stalled_body))"
  proof (intro allI impI)
    fix i :: nat assume "1 \<le> i \<and> i < 2"
    then have "i = 1" by simp
    then show "threw (attempt (if i = 1 then network_down else stalled_body))"
      by (simp add: attempt_network_down)
  qed
  have 2: "makeRequest (\<lambda>i. if i = 1 then network_down else stalled_body) no_options
       = (None, [Fetch 1, Sleep 1000, Fetch 2])"
    using makeRequest_pending [of 2 no_options "\<lambda>i. if i = 1 then network_down else stalled_body", OF _ _ b]
    by (simp add: no_options_policy s backoff_trace_def upt_rec)
  have 3: "outcome_of (settle (snd (request_begin api_init ''user.login'' login_payload no_options)) 5000 0
                    (\<lambda>i. FetchPending))
       (Started 0) = None"
    by (simp add: request_begin_def launch_def settle_def api_init_def method_of_def no_options_def
          Map_has_def 1 [unfolded no_options_def] Let_def)
  from 1 2 3 show ?thesis by simp
qed

text \<open>
  Claim C9, as the code has it. Let \<open>limit\<close> be the number of attempts the call supplies,
  or 3 when it supplies none or 0, and \<open>base\<close> the delay it supplies, or 1000 ms when it
  supplies none or 0. If every exchange that \<^verbatim>\<open>_makeRequest\<close> comes to make settles (the
  \<^verbatim>\<open>fetch\<close> and the reading of the body), the call settles: it makes at least one and at
  most \<open>limit\<close> exchanges, asks for \<open>base * (2^(k-1) - 1)\<close> ms of sleep in total, waits no
  longer than \<open>base * (2^(limit-1) - 1)\<close> ms in its sleeps, and ends either with the value
  of its last attempt or with an error carrying a message that names the attempt count
  and the last cause.
\<close>

theorem every_call_settles:
  assumes "opt_retries opts = Some n \<and> 0 < n \<and> limit = n
           \<or> (opt_retries opts = None \<or> opt_retries opts = Some 0) \<and> limit = 3"
    and "opt_retryDelay opts = Some d \<and> 0 < d \<and> base = d
           \<or> (opt_retryDelay opts = None \<or> opt_retryDelay opts = Some 0) \<and> base = 1000"
    and "\<forall>i. 1 \<le> i \<and> i \<le> limit \<and> (\<forall>j. 1 \<le> j \<and> j < i \<longrightarrow> threw (attempt (transport j)))
             \<longrightarrow> attempt (transport i) \<noteq> None"
  shows "\<exists>k. 1 \<le> k \<and> k \<le> limit
      \<and> fetches (snd (makeRequest transport opts)) = [1..<Suc k]
      \<and> sum_list (sleeps (snd (makeRequest transport opts))) = base * (2 ^ (k - 1) - 1)
      \<and> sum_list (map sleep (sleeps (snd (makeRequest transport opts)))) \<le> base * (2 ^ (limit - 1) - 1)
      \<and> ((\<exists>result. fst (makeRequest transport opts) = Some (Inr result)
                  \<and> attempt (transport k) = Some (Inr result))
         \<or> (\<exists>cause. fst (makeRequest transport opts) =
                Some (Inl (Error (''API request failed after '' @ show_nat limit
                                  @ '' attempts: '' @ message cause)))
              \<and> k = limit \<and> attempt (transport k) = Some (Inl cause)))"
proof -
  have lim: "maxRetries_of opts = limit" by (rule maxRetries_supplied [OF assms(1)])
  have bas: "retryDelay_of opts = base" by (rule retryDelay_supplied [OF assms(2)])
  obtain k where k: "1 \<le> k" "k \<le> limit"
      "snd (makeRequest transport opts) = backoff_trace base k"
      "\<forall>i. 1 \<le> i \<and> i < k \<longrightarrow> threw (attempt (transport i))"
      "fst (makeRequest transport opts) =
            (case attempt (transport k) of
               None \<Rightarrow> None
             | Some (Inr r) \<Rightarrow> Some (Inr r)
             | Some (Inl e) \<Rightarrow>
                 Some (Inl (Error (''API request failed after '' @ show_nat limit
                                   @ '' attempts: '' @ message e))))"
      "threw (attempt (transport k)) \<longrightarrow> k = limit"
    using makeRequest_shape [of opts transport] unfolding lim bas by blast
  from assms(3) k(1) k(2) k(4) have settles: "attempt (transport k) \<noteq> None" by blast
  have f: "fetches (snd (makeRequest transport opts)) = [1..<Suc k]"
    using k(1) by (simp add: k(3) backoff_trace_from fetches_trace_from)
  have w: "sum_list (sleeps (snd (makeRequest transport opts))) = base * (2 ^ (k - 1) - 1)"
    using k(1) by (simp add: k(3) total_wait)
  have "(2::nat) ^ (k - 1) \<le> 2 ^ (limit - 1)"
    using k(2) by (intro power_increasing) simp_all
  then have "base * (2 ^ (k - 1) - 1) \<le> base * (2 ^ (limit - 1) - 1)"
    by (intro mult_le_mono2 diff_le_mono)
  with w have "sum_list (sleeps (snd (makeRequest transport opts))) \<le> base * (2 ^ (limit - 1) - 1)"
    by (simp only:)
  with waited_le_requested [of "sleeps (snd (makeRequest transport opts))"]
  have b: "sum_list (map sleep (sleeps (snd (makeRequest transport opts)))) \<le> base * (2 ^ (limit - 1) - 1)"
    by (rule le_trans)
  have o: "(\<exists>result. fst (makeRequest transport opts) = Some (Inr result)
                  \<and> attempt (transport k) = Some (Inr result))
         \<or> (\<exists>cause. fst (makeRequest transport opts) =
                Some (Inl (Error (''API request failed after '' @ show_nat limit
                                  @ '' attempts: '' @ message cause)))
              \<and> k = limit \<and> attempt (transport k) = Some (Inl cause))"
  proof (cases "attempt (transport k)")
    case None
    with settles show ?thesis by simp
  next
    case (Some out)
    then show ?thesis using k(5) k(6) by (cases out) simp_all
  qed
  from k(1) k(2) f w b o show ?thesis
    by (intro exI [of _ k]) simp
qed

lemma show_nat_2: "show_nat 2 = ''2''"
  by (simp add: show_nat.simps [of 2] digit_char_def)

text \<open>
  A call that supplies 2 attempts and a delay of 500 ms, against a network that is down:
  it ends after two exchanges and 500 ms of sleep, with the error of the second.
\<close>

theorem every_call_settles_witness:
  "fetches (snd (makeRequest (\<lambda>i. network_down) (retry_options 2 500))) = [1, 2]
   \<and> sum_list (sleeps (snd (makeRequest (\<lambda>i. network_down) (retry_options 2 500)))) = 500
   \<and> fst (makeRequest (\<lambda>i. network_down) (retry_options 2 500))
       = Some (Inl (Error ''API request failed after 2 attempts: Failed to fetch''))"
proof -
  have r: "opt_retries (retry_options 2 500) = Some 2 \<and> (0::nat) < 2 \<and> (2::nat) = 2
           \<or> (opt_retries (retry_options 2 500) = None \<or> opt_retries (retry_options 2 500) = Some 0)
             \<and> (2::nat) = 3"
    by (simp add: retry_options_def)
  have d: "opt_retryDelay (retry_options 2 500) = Some 500 \<and> (0::nat) < 500 \<and> (500::nat) = 500
           \<or> (opt_retryDelay (retry_options 2 500) = None \<or> opt_retryDelay (retry_options 2 500) = Some 0)
             \<and> (500::nat) = 1000"
    by (simp add: retry_options_def)
  have s: "\<forall>i. 1 \<le> i \<and> i \<le> (2::nat) \<and> (\<forall>j. 1 \<le> j \<and> j < i \<longrightarrow> threw (attempt network_down))
             \<longrightarrow> attempt network_down \<noteq> None"
    by (simp add: attempt_network_down)
  obtain k where k: "1 \<le> k" "k \<le> 2"
      "fetches (snd (makeRequest (\<lambda>i. network_down) (retry_options 2 500))) = [1..<Suc k]"
      "sum_list (sleeps (snd (makeRequest (\<lambda>i. network_down) (retry_options 2 500)))) = 500 * (2 ^ (k - 1) - 1)"
    and o: "(\<exists>result. fst (makeRequest (\<lambda>i. network_down) (retry_options 2 500)) = Some (Inr result)
                \<and> attempt network_down = Some (Inr result))
          \<or> (\<exists>cause. fst (makeRequest (\<lambda>i. network_down) (retry_options 2 500)) =
                Some (Inl (Error (''API request failed after '' @ show_nat 2 @ '' attempts: '' @ message cause)))
              \<and> k = 2 \<and> attempt network_down = Some (Inl cause))"
    using every_call_settles [OF r d, of "\<lambda>i. network_down", OF s] by blast
  from o have k2: "k = 2"
    and e: "fst (makeRequest (\<lambda>i. network_down) (retry_options 2 500))
       = Some (Inl (Error ''API request failed after 2 attempts: Failed to fetch''))"
    by (auto simp: attempt_network_down show_nat_2)
  from k(3) k(4) k2 e show ?thesis by (simp add: upt_rec)
qed

lemma fetches_backoff_length: "1 \<le> k \<Longrightarrow> length (fetches (backoff_trace d k)) = k"
  by (simp add: backoff_trace_from fetches_trace_from)

section \<open>Strings: decimal digits, escaping, substrings\<close>

lemma digit_char_code:
  assumes "a < 16"
  shows "(of_char (digit_char a) :: nat) = (if a < 10 then 48 + a else 87 + a)"
proof -
  have "a \<in> {0,1,2,3,4,5,6,7,8,9,10,11,12,13,14,15}" using assms by simp arith
  then show ?thesis
    unfolding digit_char_def by (elim insertE emptyE) simp_all
qed

lemma digit_char_inj: "a < 16 \<Longrightarrow> b < 16 \<Longrightarrow> digit_char a = digit_char b \<Longrightarrow> a = b"
proof -
  assume a: "a < 16" and b: "b < 16" and e: "digit_char a = digit_char b"
  from e have "(of_char (digit_char a) :: nat) = of_char (digit_char b)" by simp
  then have "(if a < 10 then 48 + a else 87 + a) = (if b < 10 then 48 + b else 87 + b)"
    by (simp only: digit_char_code [OF a] digit_char_code [OF b])
  then show ?thesis by (simp split: if_splits)
qed

lemma escape_char_prefix:
  assumes "escape_char c @ A = escape_char c' @ A'"
  shows "c = c' \<and> A = A'"
proof -
  define hv :: "char \<Rightarrow> nat"
    where "hv d = (if (of_char d :: nat) < 58 then of_char d - 48 else of_char d - 87)" for d
  define dec :: "string \<Rightarrow> char \<times> string"
    where "dec s =
      (case s of
         [] \<Rightarrow> (CHR 0x00, [])
       | x # rest \<Rightarrow>
           if x \<noteq> CHR 0x5C then (x, rest)
           else (case rest of
               [] \<Rightarrow> (CHR 0x00, [])
             | e # rest2 \<Rightarrow>
                 if e = CHR 0x22 then (CHR 0x22, rest2)
                 else if e = CHR 0x5C then (CHR 0x5C, rest2)
                 else if e = CHR ''b'' then (CHR 0x08, rest2)
                 else if e = CHR ''f'' then (CHR 0x0C, rest2)
                 else if e = CHR ''n'' then (CHR 0x0A, rest2)
                 else if e = CHR ''r'' then (CHR 0x0D, rest2)
                 else if e = CHR ''t'' then (CHR 0x09, rest2)
                 else (char_of (16 * hv (hd (drop 2 rest2)) + hv (hd (drop 3 rest2))), drop 4 rest2)))" for s
  have hv: "hv (digit_char a) = a" if "a < 16" for a
    using that by (simp add: hv_def digit_char_code)
  have known: "c = d" if "(of_char c :: nat) = of_char d" for c d :: char
    using that by simp
  have dec: "dec (escape_char c @ A) = (c, A)" for c A
  proof -
    let ?n = "of_char c :: nat"
    consider "?n = 0x22" | "?n = 0x5C" | "?n = 8" | "?n = 12" | "?n = 10" | "?n = 13" | "?n = 9"
      | "?n < 32" "?n \<noteq> 8" "?n \<noteq> 12" "?n \<noteq> 10" "?n \<noteq> 13" "?n \<noteq> 9"
      | "32 \<le> ?n" "?n \<noteq> 0x22" "?n \<noteq> 0x5C"
      by linarith
    then show ?thesis
    proof cases
      case 1
      then have "c = CHR 0x22" by (intro known) simp
      then show ?thesis by (simp add: escape_char_def dec_def)
    next
      case 2
      then have "c = CHR 0x5C" by (intro known) simp
      then show ?thesis by (simp add: escape_char_def dec_def)
    next
      case 3
      then have "c = CHR 0x08" by (intro known) simp
      then show ?thesis by (simp add: escape_char_def dec_def)
    next
      case 4
      then have "c = CHR 0x0C" by (intro known) simp
      then show ?thesis by (simp add: escape_char_def dec_def)
    next
      case 5
      then have "c = CHR 0x0A" by (intro known) simp
      then show ?thesis by (simp add: escape_char_def dec_def)
    next
      case 6
      then have "c = CHR 0x0D" by (intro known) simp
      then show ?thesis by (simp add: escape_char_def dec_def)
    next
      case 7
      then have "c = CHR 0x09" by (intro known) simp
      then show ?thesis by (simp add: escape_char_def dec_def)
    next
      case 8
      then have e: "escape_char c =
          [CHR 0x5C, CHR ''u'', CHR ''0'', CHR ''0'', digit_char (?n div 16), digit_char (?n mod 16)]"
        by (simp add: escape_char_def Let_def)
      have "?n div 16 < 16" using 8(1) by simp
      then have h1: "hv (digit_char (?n div 16)) = ?n div 16" by (rule hv)
      have "?n mod 16 < 16" by simp
      then have h2: "hv (digit_char (?n mod 16)) = ?n mod 16" by (rule hv)
      have "char_of (16 * (?n div 16) + ?n mod 16) = c" by simp
      then show ?thesis by (simp add: e dec_def h1 h2)
    next
      case 9
      then have e: "escape_char c = [c]" by (simp add: escape_char_def Let_def)
      have "c \<noteq> CHR 0x5C" using 9(3) by auto
      then show ?thesis by (simp add: e dec_def)
    qed
  qed
  from assms have "dec (escape_char c @ A) = dec (escape_char c' @ A')" by simp
  then show ?thesis by (simp add: dec)
qed

lemma escape_char_no_quote_first: "\<exists>x xs. escape_char c = x # xs \<and> x \<noteq> CHR 0x22"
  unfolding escape_char_def Let_def by auto

lemma escape_prefix:
  assumes "concat (map escape_char s) @ CHR 0x22 # A = concat (map escape_char s') @ CHR 0x22 # A'"
  shows "s = s' \<and> A = A'"
  using assms
proof (induction s arbitrary: s')
  case Nil
  show ?case
  proof (cases s')
    case Nil with Nil.prems show ?thesis by simp
  next
    case (Cons c t)
    obtain x xs where "escape_char c = x # xs" "x \<noteq> CHR 0x22"
      using escape_char_no_quote_first by blast
    with Nil.prems Cons show ?thesis by simp
  qed
next
  case (Cons c t)
  show ?case
  proof (cases s')
    case Nil
    obtain x xs where "escape_char c = x # xs" "x \<noteq> CHR 0x22"
      using escape_char_no_quote_first by blast
    with Cons.prems Nil show ?thesis by simp
  next
    case (Cons c' t')
    with Cons.prems have
      "escape_char c @ (concat (map escape_char t) @ CHR 0x22 # A)
       = escape_char c' @ (concat (map escape_char t') @ CHR 0x22 # A')"
      by simp
    then have "c = c'" and "concat (map escape_char t) @ CHR 0x22 # A = concat (map escape_char t') @ CHR 0x22 # A'"
      using escape_char_prefix by blast+
    with Cons.IH [of t'] Cons show ?thesis by simp
  qed
qed

lemma quote_prefix:
  assumes "quote k @ A = quote k' @ A'"
  shows "k = k' \<and> A = A'"
  using assms escape_prefix [of k A k' A'] by (simp add: quote_def)

lemma JSON_stringify_None: "JSON_stringify v = None \<longleftrightarrow> v = JUndefined"
  by (cases v) simp_all

lemma join_Cons: "join sep (x # xs) = x @ (if xs = [] then [] else sep @ join sep xs)"
  by (cases xs) simp_all

lemma member_texts_Cons:
  "v \<noteq> JUndefined \<Longrightarrow>
   member_texts ((k, v) # ms) = (quote k @ '':'' @ the (JSON_stringify v)) # member_texts ms"
  by (cases "JSON_stringify v") (simp_all add: member_texts_def JSON_stringify_None)

lemma member_texts_empty:
  "\<forall>(k, v) \<in> set ms. v \<noteq> JUndefined \<Longrightarrow> member_texts ms = [] \<longleftrightarrow> ms = []"
proof (cases ms)
  case Nil
  then show ?thesis by (simp add: member_texts_def)
next
  case (Cons m r)
  assume d: "\<forall>(k, v) \<in> set ms. v \<noteq> JUndefined"
  obtain k v where m: "m = (k, v)" by (cases m)
  with d Cons have "v \<noteq> JUndefined" by simp
  then show ?thesis unfolding Cons m by (simp add: member_texts_Cons)
qed

lemma map_of_tail:
  assumes "distinct (map fst ((k, v) # r))" "distinct (map fst ((k, v') # r'))"
    and "map_of ((k, v) # r) = map_of ((k, v') # r')"
  shows "v = v' \<and> map_of r = map_of r'"
proof
  from assms(3) have "map_of ((k, v) # r) k = map_of ((k, v') # r') k" by simp
  then show "v = v'" by simp
  show "map_of r = map_of r'"
  proof
    fix x
    show "map_of r x = map_of r' x"
    proof (cases "x = k")
      case True
      from assms(1) have "k \<notin> fst ` set r" by simp
      then have "map_of r k = None" by (simp add: map_of_eq_None_iff)
      moreover from assms(2) have "k \<notin> fst ` set r'" by simp
      then have "map_of r' k = None" by (simp add: map_of_eq_None_iff)
      ultimately show ?thesis using True by simp
    next
      case False
      from assms(3) have "map_of ((k, v) # r) x = map_of ((k, v') # r') x" by simp
      with False show ?thesis by simp
    qed
  qed
qed

lemma members_order:
  assumes "distinct (map fst ms)" "distinct (map fst ms')" "map_of ms = map_of ms'"
    and "\<forall>(k, v) \<in> set ms. v \<noteq> JUndefined" "\<forall>(k, v) \<in> set ms'. v \<noteq> JUndefined"
    and "join '','' (member_texts ms) = join '','' (member_texts ms')"
  shows "ms = ms'"
  using assms
proof (induction ms arbitrary: ms')
  case Nil
  then have "map_of ms' = Map.empty" by simp
  then show ?case by (cases ms') (auto simp: fun_eq_iff split: if_splits)
next
  case (Cons m r)
  obtain k v where m: "m = (k, v)" by (cases m)
  have "ms' \<noteq> []"
  proof
    assume "ms' = []"
    have "map_of (m # r) k = map_of ms' k" using Cons.prems(3) by (rule fun_cong)
    with \<open>ms' = []\<close> m show False by simp
  qed
  then obtain k' v' r' where ms': "ms' = (k', v') # r'" by (cases ms') auto
  from Cons.prems(4) m have v: "v \<noteq> JUndefined" by simp
  from Cons.prems(5) ms' have v': "v' \<noteq> JUndefined" by simp
  let ?R = "if member_texts r = [] then [] else '','' @ join '','' (member_texts r)"
  let ?R' = "if member_texts r' = [] then [] else '','' @ join '','' (member_texts r')"
  from Cons.prems(6) have
    "quote k @ ('':'' @ the (JSON_stringify v) @ ?R) = quote k' @ ('':'' @ the (JSON_stringify v') @ ?R')"
    unfolding m ms' member_texts_Cons [OF v] member_texts_Cons [OF v'] join_Cons by simp
  then have qp: "k = k' \<and> '':'' @ the (JSON_stringify v) @ ?R = '':'' @ the (JSON_stringify v') @ ?R'"
    by (rule quote_prefix)
  then have kk: "k = k'" by (rule conjunct1)
  from qp have "'':'' @ the (JSON_stringify v) @ ?R = '':'' @ the (JSON_stringify v') @ ?R'"
    by (rule conjunct2)
  then have rest: "the (JSON_stringify v) @ ?R = the (JSON_stringify v') @ ?R'"
    by (simp only: append_Cons append_Nil list.inject simp_thms)
  have tl: "v = v' \<and> map_of r = map_of r'"
    by (rule map_of_tail [OF Cons.prems(1) [unfolded m kk] Cons.prems(2) [unfolded ms']
          Cons.prems(3) [unfolded m ms' kk]])
  then have vv: "v = v'" and maps: "map_of r = map_of r'" by blast+
  from rest vv have R: "?R = ?R'" by simp
  from Cons.prems(4) m have dr: "\<forall>(k, v) \<in> set r. v \<noteq> JUndefined" by simp
  from Cons.prems(5) ms' have dr': "\<forall>(k, v) \<in> set r'. v \<noteq> JUndefined" by simp
  have j: "join '','' (member_texts r) = join '','' (member_texts r')"
  proof (cases "member_texts r = []")
    case True
    with R have "member_texts r' = []" by (auto split: if_splits)
    with True show ?thesis by simp
  next
    case False
    with R have "member_texts r' \<noteq> []" by (auto split: if_splits)
    with False R show ?thesis by simp
  qed
  from Cons.prems(1) m have d: "distinct (map fst r)" by simp
  from Cons.prems(2) ms' have d': "distinct (map fst r')" by simp
  from Cons.IH [OF d d' maps dr dr' j] m ms' kk vv show ?case by simp
qed

lemma generateCacheKey_object:
  "generateCacheKey endpoint (JObj ms) = endpoint @ ''_{'' @ join '','' (member_texts ms) @ ''}''"
  by (simp add: generateCacheKey_def member_texts_def)

text \<open>
  Claim C6, as the code has it. The key is the endpoint, an underscore and
  \<^verbatim>\<open>JSON.stringify\<close> of the payload, which writes the members in the object's own order.
  For two payload objects that are equal as mappings (and have no \<^verbatim>\<open>undefined\<close> member)
  the keys are equal exactly when the members are in the same order.
\<close>

theorem cache_key_follows_member_order:
  assumes "distinct (map fst ms)" and "distinct (map fst ms')"
    and "map_of ms = map_of ms'"
    and "\<forall>(k, v) \<in> set ms. v \<noteq> JUndefined"
  shows "(generateCacheKey endpoint (JObj ms) = generateCacheKey endpoint (JObj ms')) = (ms = ms')"
proof
  assume eq: "generateCacheKey endpoint (JObj ms) = generateCacheKey endpoint (JObj ms')"
  have def': "\<forall>(k, v) \<in> set ms'. v \<noteq> JUndefined"
  proof (clarify)
    fix k assume "(k, JUndefined) \<in> set ms'"
    with assms(2) have "map_of ms' k = Some JUndefined" by simp
    with assms(3) have "map_of ms k = Some JUndefined" by simp
    then have "(k, JUndefined) \<in> set ms" by (rule map_of_SomeD)
    with assms(4) show False by auto
  qed
  from eq have "join '','' (member_texts ms) = join '','' (member_texts ms')"
    by (simp add: generateCacheKey_object)
  from members_order [OF assms(1) assms(2) assms(3) assms(4) def' this] show "ms = ms'" .
next
  assume "ms = ms'"
  then show "generateCacheKey endpoint (JObj ms) = generateCacheKey endpoint (JObj ms')" by simp
qed

text \<open>
  The payload of \<^verbatim>\<open>getUserPosts\<close> with its two members in either order.
\<close>

theorem cache_key_follows_member_order_witness:
  "generateCacheKey ''post.stats'' (JObj [(''email'', JStr ''a@b.com''), (''limit'', JNum 50)])
     \<noteq> generateCacheKey ''post.stats'' (JObj [(''limit'', JNum 50), (''email'', JStr ''a@b.com'')])
   \<and> generateCacheKey ''post.stats'' (JObj [(''email'', JStr ''a@b.com''), (''limit'', JNum 50)])
     = generateCacheKey ''post.stats'' (JObj [(''email'', JStr ''a@b.com''), (''limit'', JNum 50)])"
proof -
  have m: "map_of [(''email'', JStr ''a@b.com''), (''limit'', JNum 50)]
         = map_of [(''limit'', JNum 50), (''email'', JStr ''a@b.com'')]"
    by (rule ext) simp
  have d: "distinct (map fst [(''email'', JStr ''a@b.com''), (''limit'', JNum 50)])"
      "distinct (map fst [(''limit'', JNum 50), (''email'', JStr ''a@b.com'')])"
      "\<forall>(k, v) \<in> set [(''email'', JStr ''a@b.com''), (''limit'', JNum 50)]. v \<noteq> JUndefined"
    by simp_all
  from cache_key_follows_member_order [OF d(1) d(2) m d(3), of "''post.stats''"]
  show ?thesis by simp
qed

lemma show_nat_50: "show_nat 50 = ''50''"
  by (simp add: show_nat.simps [of 50] show_nat.simps [of 5] digit_char_def)

text \<open>
  Claim C6 as stated fails: the same mapping with its members in the other order gets
  another key.
\<close>

theorem cache_key_order_counterexample:
  "map_of [(''email'', JStr ''a@b.com''), (''limit'', JNum 50)]
     = map_of [(''limit'', JNum 50), (''email'', JStr ''a@b.com'')]
   \<and> generateCacheKey ''post.list'' payload_email_first
     \<noteq> generateCacheKey ''post.list'' payload_limit_first"
proof
  show "map_of [(''email'', JStr ''a@b.com''), (''limit'', JNum 50)]
     = map_of [(''limit'', JNum 50), (''email'', JStr ''a@b.com'')]"
    by (rule ext) simp
  show "generateCacheKey ''post.list'' payload_email_first
     \<noteq> generateCacheKey ''post.list'' payload_limit_first"
    by (simp add: generateCacheKey_def payload_email_first_def payload_limit_first_def quote_def
          escape_char_def)
qed

lemma starts_with_iff: "starts_with s e \<longleftrightarrow> (\<exists>r. s = e @ r)"
  by (induction s e rule: starts_with.induct) auto

lemma str_includes_iff: "str_includes s e \<longleftrightarrow> (\<exists>p r. s = p @ e @ r)"
proof (induction s)
  case Nil
  show ?case by auto
next
  case (Cons c cs)
  show ?case
  proof
    assume "str_includes (c # cs) e"
    then consider "starts_with (c # cs) e" | "str_includes cs e" by auto
    then show "\<exists>p r. c # cs = p @ e @ r"
    proof cases
      case 1
      then obtain r where "c # cs = e @ r" using starts_with_iff by blast
      then have "c # cs = [] @ e @ r" by simp
      then show ?thesis by blast
    next
      case 2
      then obtain p r where "cs = p @ e @ r" using Cons.IH by blast
      then have "c # cs = (c # p) @ e @ r" by simp
      then show ?thesis by blast
    qed
  next
    assume "\<exists>p r. c # cs = p @ e @ r"
    then obtain p r where pr: "c # cs = p @ e @ r" by blast
    show "str_includes (c # cs) e"
    proof (cases p)
      case Nil
      with pr have "starts_with (c # cs) e" using starts_with_iff by auto
      then show ?thesis by simp
    next
      case (Cons a p')
      with pr have "cs = p' @ e @ r" by simp
      then have "str_includes cs e" using Cons.IH by blast
      then show ?thesis by simp
    qed
  qed
qed

lemma foldl_Map_delete: "foldl Map_delete m ks = filter (\<lambda>(k, v). k \<notin> set ks) m"
  by (induction ks arbitrary: m) (auto simp: Map_delete_def intro: filter_cong)

lemma cache_clearUserCache:
  "cache (clearUserCache st email) = filter (\<lambda>(k, v). \<not> str_includes k email) (cache st)"
proof -
  have "filter (\<lambda>(k, v). k \<notin> set (filter (\<lambda>key. str_includes key email) (map fst (cache st)))) (cache st)
      = filter (\<lambda>(k, v). \<not> str_includes k email) (cache st)"
    by (rule filter_cong) force+
  then show ?thesis
    by (simp add: clearUserCache_def Map_keys_def foldl_Map_delete)
qed

lemma map_of_filter_key:
  "map_of (filter (\<lambda>(k, v). P k) m) x = (if P x then map_of m x else None)"
  by (induction m) auto

text \<open>
  Claim C10. \<^verbatim>\<open>clearUserCache(email)\<close> keeps exactly the entries whose key does not
  contain \<open>email\<close> as a substring, in their order, and touches nothing else; where no
  key contains it the state is unchanged. A key built for \<^verbatim>\<open>aa@b.com\<close> contains
  \<^verbatim>\<open>a@b.com\<close>, so clearing the latter user's entries removes the former's too.
\<close>

theorem clearUserCache_removes_matching_keys:
  "cache (clearUserCache st email) = filter (\<lambda>(k, v). \<not> str_includes k email) (cache st)
   \<and> Map_get (cache (clearUserCache st email)) key
        = (if str_includes key email then None else Map_get (cache st) key)
   \<and> (str_includes key email \<longleftrightarrow> (\<exists>p r. key = p @ email @ r))
   \<and> ((\<forall>k \<in> set (Map_keys (cache st)). \<not> str_includes k email) \<longrightarrow> clearUserCache st email = st)
   \<and> requestQueue (clearUserCache st email) = requestQueue st
   \<and> str_includes (generateCacheKey ''user.profile'' (JObj [(''email'', JStr ''aa@b.com'')])) ''a@b.com''
   \<and> cache (clearUserCache three_users ''a@b.com'')
        = [(''stats_c@d.com'', JObj [(''success'', JBool True), (''posts'', JNum 3)])]"
proof (intro conjI impI)
  show c: "cache (clearUserCache st email) = filter (\<lambda>(k, v). \<not> str_includes k email) (cache st)"
    by (rule cache_clearUserCache)
  show "Map_get (cache (clearUserCache st email)) key
        = (if str_includes key email then None else Map_get (cache st) key)"
    by (simp add: c Map_get_def map_of_filter_key)
  show "str_includes key email \<longleftrightarrow> (\<exists>p r. key = p @ email @ r)"
    by (rule str_includes_iff)
  show "requestQueue (clearUserCache st email) = requestQueue st"
    by (simp add: clearUserCache_def)
  show "str_includes (generateCacheKey ''user.profile'' (JObj [(''email'', JStr ''aa@b.com'')])) ''a@b.com''"
    by (simp add: generateCacheKey_def quote_def escape_char_def)
  show "cache (clearUserCache three_users ''a@b.com'')
        = [(''stats_c@d.com'', JObj [(''success'', JBool True), (''posts'', JNum 3)])]"
    by (simp add: cache_clearUserCache three_users_def api_init_def)
next
  assume "\<forall>k \<in> set (Map_keys (cache st)). \<not> str_includes k email"
  then have "filter (\<lambda>(k, v). \<not> str_includes k email) (cache st) = cache st"
    by (auto simp: Map_keys_def filter_id_conv)
  then have "cache (clearUserCache st email) = cache st"
    by (simp add: cache_clearUserCache)
  then show "clearUserCache st email = st"
    by (simp add: clearUserCache_def)
qed

text \<open>
  No key of the three-user cache contains \<^verbatim>\<open>x@y.org\<close>.
\<close>

theorem clearUserCache_removes_matching_keys_witness:
  "clearUserCache three_users ''x@y.org'' = three_users"
  using clearUserCache_removes_matching_keys [of three_users "''x@y.org''" "''stats_c@d.com''"]
  by (simp add: three_users_def api_init_def Map_keys_def)

section \<open>Requests: cache, coalescing, settlement\<close>

lemma map_of_Map_set: "map_of (Map_set m k v) = (map_of m)(k \<mapsto> v)"
  by (induction m) (auto simp: fun_eq_iff)

lemma map_of_Map_delete: "map_of (Map_delete m k) = (map_of m)(k := None)"
  by (auto simp: Map_delete_def map_of_filter_key fun_eq_iff)

lemma Map_has_delete: "\<not> Map_has (Map_delete m k) k"
  by (simp add: Map_has_def map_of_Map_delete)

lemma Map_get_set: "Map_get (Map_set m k v) k = Some v"
  by (simp add: Map_get_def map_of_Map_set)

lemma Map_has_get: "Map_has m k \<longleftrightarrow> (\<exists>v. Map_get m k = Some v)"
  by (auto simp: Map_has_def Map_get_def)

lemma request_begin_cached:
  assumes "method_of opts = ''GET''" "Map_get (cache st) (cacheKey_of endpoint data opts) = Some v"
  shows "request_begin st endpoint data opts = (Immediate v, st)"
  using assms by (simp add: request_begin_def Map_has_get)

lemma request_begin_joined:
  assumes "\<not> (method_of opts = ''GET'' \<and> Map_has (cache st) (cacheKey_of endpoint data opts))"
    and "Map_get (requestQueue st) (cacheKey_of endpoint data opts) = Some p"
  shows "request_begin st endpoint data opts = (Joined p, st)"
  using assms by (auto simp: request_begin_def Map_has_get)

lemma request_begin_started:
  assumes "\<not> (method_of opts = ''GET'' \<and> Map_has (cache st) (cacheKey_of endpoint data opts))"
    and "\<not> Map_has (requestQueue st) (cacheKey_of endpoint data opts)"
  shows "request_begin st endpoint data opts = (Started (length (launched st)), launch st endpoint data opts)"
  using assms by (auto simp: request_begin_def launch_def Let_def)

lemma request_many_joined:
  assumes "\<not> (method_of opts = ''GET'' \<and> Map_has (cache st) (cacheKey_of endpoint data opts))"
    and "Map_get (requestQueue st) (cacheKey_of endpoint data opts) = Some p"
  shows "request_many st endpoint data opts n = (replicate n (Joined p), st)"
  by (induction n) (simp_all add: request_begin_joined [OF assms])

lemma request_many_fresh:
  assumes "\<not> (method_of opts = ''GET'' \<and> Map_has (cache st) (cacheKey_of endpoint data opts))"
    and "\<not> Map_has (requestQueue st) (cacheKey_of endpoint data opts)"
  shows "request_many st endpoint data opts (Suc n) =
           (Started (length (launched st)) # replicate n (Joined (length (launched st))),
            launch st endpoint data opts)"
proof -
  let ?st1 = "launch st endpoint data opts"
  have c: "\<not> (method_of opts = ''GET'' \<and> Map_has (cache ?st1) (cacheKey_of endpoint data opts))"
    using assms(1) by (simp add: launch_def)
  have q: "Map_get (requestQueue ?st1) (cacheKey_of endpoint data opts) = Some (length (launched st))"
    by (simp add: launch_def Map_get_set)
  show ?thesis
    by (simp add: request_begin_started [OF assms] request_many_joined [OF c q])
qed

lemma settle_launch:
  assumes "makeRequest transport opts = (Some outcome, effects)"
  shows "settle (launch st endpoint data opts) now (length (launched st)) transport =
           snd (request_finish
                 ((launch st endpoint data opts)
                    \<lparr>launched := launched st @ [((endpoint, data, method_of opts, opts), Some outcome)],
                     exchanges := exchanges st + length (fetches effects)\<rparr>)
                 now endpoint data opts outcome)"
  using assms by (simp add: settle_def launch_def)

lemma settle_launch_pending:
  assumes "fst (makeRequest transport opts) = None"
  shows "settle (launch st endpoint data opts) now (length (launched st)) transport =
           launch st endpoint data opts"
  using assms by (cases "makeRequest transport opts") (simp add: settle_def launch_def)

lemma settle_launch_fields:
  fixes st :: api_state and endpoint data opts now transport
  assumes "makeRequest transport opts = (Some outcome, effects)"
  defines "st2 \<equiv> settle (launch st endpoint data opts) now (length (launched st)) transport"
  shows "launched st2 = launched st @ [((endpoint, data, method_of opts, opts), Some outcome)]"
    and "exchanges st2 = exchanges st + length (fetches effects)"
    and "requestQueue st2 = Map_delete (Map_set (requestQueue st) (cacheKey_of endpoint data opts) (length (launched st)))
                              (cacheKey_of endpoint data opts)"
    and "cache st2 =
           (case outcome of
              Inl e \<Rightarrow> cache st
            | Inr result \<Rightarrow>
                (case opt_cacheTime opts of
                   None \<Rightarrow> cache st
                 | Some ttl \<Rightarrow>
                     if method_of opts = ''GET'' \<and> ttl \<noteq> 0
                     then Map_set (cache st) (cacheKey_of endpoint data opts) result
                     else cache st))"
    and "timers st2 =
           (case outcome of
              Inl e \<Rightarrow> timers st
            | Inr result \<Rightarrow>
                (case opt_cacheTime opts of
                   None \<Rightarrow> timers st
                 | Some ttl \<Rightarrow>
                     if method_of opts = ''GET'' \<and> ttl \<noteq> 0
                     then timers st @ [(now + setTimeout_delay ttl, cacheKey_of endpoint data opts)]
                     else timers st))"
  unfolding st2_def settle_launch [OF assms(1)]
  by (auto simp: request_finish_def launch_def Let_def split: sum.splits option.splits)

lemma outcome_of_settled:
  assumes "launched st2 = launched st @ [(args, Some outcome)]"
  shows "outcome_of st2 (Started (length (launched st))) = Some outcome"
    and "outcome_of st2 (Joined (length (launched st))) = Some outcome"
  using assms by simp_all

lemma exchanges_bounds:
  "1 \<le> length (fetches (snd (makeRequest transport opts)))
   \<and> length (fetches (snd (makeRequest transport opts))) \<le> maxRetries_of opts"
proof -
  obtain k where k: "1 \<le> k" "k \<le> maxRetries_of opts"
      "snd (makeRequest transport opts) = backoff_trace (retryDelay_of opts) k"
    using makeRequest_shape [of opts transport] by blast
  then show ?thesis by (simp add: fetches_backoff_length)
qed

lemma exchanges_first_try:
  assumes "\<not> threw (attempt (transport 1))"
  shows "length (fetches (snd (makeRequest transport opts))) = 1"
proof -
  have "makeRequest transport opts = (attempt (transport 1), [Fetch 1])"
    unfolding makeRequest_def
    by (rule loop_one [of 1 "maxRetries_of opts" transport "retryDelay_of opts", OF maxRetries_pos assms])
  then show ?thesis by simp
qed

text \<open>
  Claim C1, as the code has it. Take a call that is not answered from the cache. If a
  request with its key is pending, the call gets that request's promise and nothing is
  started. If none is pending, \<open>n + 1\<close> calls made before the settlement start exactly
  one invocation of \<^verbatim>\<open>_makeRequest\<close>: the first call starts it and the others join it, and
  no caller has an outcome yet. Every caller has what the invocation settles with, the
  same for all, and nothing as long as it has not settled. When the invocation settles,
  it has made between one and \<^verbatim>\<open>maxRetries\<close> exchanges (one if the first attempt did not
  fail); the queue entry is gone, and the next call with the key, unless it is answered
  from the cache, starts the next invocation.
\<close>

theorem dedup_single_run:
  assumes "\<not> (method_of opts = ''GET'' \<and> Map_has (cache st) (cacheKey_of endpoint data opts))"
  shows "(Map_get (requestQueue st) (cacheKey_of endpoint data opts) = Some p
            \<longrightarrow> request_begin st endpoint data opts = (Joined p, st))
       \<and> (\<not> Map_has (requestQueue st) (cacheKey_of endpoint data opts) \<longrightarrow>
            (let (hs, st1) = request_many st endpoint data opts (Suc n);
                 q = length (launched st);
                 st2 = settle st1 now q transport
             in hs = Started q # replicate n (Joined q)
              \<and> length (launched st1) = Suc (length (launched st))
              \<and> (\<forall>h \<in> set hs. outcome_of st1 h = None)
              \<and> (\<forall>h \<in> set hs. outcome_of st2 h = fst (makeRequest transport opts))
              \<and> length (launched st2) = Suc (length (launched st))
              \<and> (fst (makeRequest transport opts) = None \<longrightarrow> st2 = st1)
              \<and> (fst (makeRequest transport opts) \<noteq> None \<longrightarrow>
                    1 \<le> exchanges st2 - exchanges st
                  \<and> exchanges st2 - exchanges st \<le> maxRetries_of opts
                  \<and> exchanges st2 = exchanges st + length (fetches (snd (makeRequest transport opts)))
                  \<and> (\<not> threw (attempt (transport 1)) \<longrightarrow> exchanges st2 = exchanges st + 1)
                  \<and> \<not> Map_has (requestQueue st2) (cacheKey_of endpoint data opts)
                  \<and> (\<not> (method_of opts = ''GET'' \<and> Map_has (cache st2) (cacheKey_of endpoint data opts))
                       \<longrightarrow> fst (request_begin st2 endpoint data opts) = Started (Suc q)))))"
proof (intro conjI impI)
  assume "Map_get (requestQueue st) (cacheKey_of endpoint data opts) = Some p"
  with assms show "request_begin st endpoint data opts = (Joined p, st)"
    by (rule request_begin_joined)
next
  assume fresh: "\<not> Map_has (requestQueue st) (cacheKey_of endpoint data opts)"
  let ?key = "cacheKey_of endpoint data opts"
  let ?q = "length (launched st)"
  let ?st1 = "launch st endpoint data opts"
  let ?st2 = "settle ?st1 now ?q transport"
  let ?hs = "Started ?q # replicate n (Joined ?q)"
  have many: "request_many st endpoint data opts (Suc n) = (?hs, ?st1)"
    by (rule request_many_fresh [OF assms fresh])
  have l1: "length (launched ?st1) = Suc (length (launched st))"
    by (simp add: launch_def)
  have pending: "\<forall>h \<in> set ?hs. outcome_of ?st1 h = None"
    by (auto simp: launch_def nth_append)
  have stuck: "?st2 = ?st1" if "fst (makeRequest transport opts) = None"
    using that by (rule settle_launch_pending)
  have settled: "\<forall>h \<in> set ?hs. outcome_of ?st2 h = fst (makeRequest transport opts)"
  proof (cases "fst (makeRequest transport opts)")
    case None
    with pending stuck show ?thesis by simp
  next
    case (Some outcome)
    then obtain effects where run: "makeRequest transport opts = (Some outcome, effects)"
      by (cases "makeRequest transport opts") simp
    from outcome_of_settled [OF settle_launch_fields(1) [OF run, of st endpoint data now]] Some
    show ?thesis by auto
  qed
  have l2: "length (launched ?st2) = Suc (length (launched st))"
  proof (cases "fst (makeRequest transport opts)")
    case None
    with stuck l1 show ?thesis by simp
  next
    case (Some outcome)
    then obtain effects where run: "makeRequest transport opts = (Some outcome, effects)"
      by (cases "makeRequest transport opts") simp
    show ?thesis by (simp add: settle_launch_fields(1) [OF run, of st endpoint data now])
  qed
  have fin: "1 \<le> exchanges ?st2 - exchanges st
                  \<and> exchanges ?st2 - exchanges st \<le> maxRetries_of opts
                  \<and> exchanges ?st2 = exchanges st + length (fetches (snd (makeRequest transport opts)))
                  \<and> (\<not> threw (attempt (transport 1)) \<longrightarrow> exchanges ?st2 = exchanges st + 1)
                  \<and> \<not> Map_has (requestQueue ?st2) ?key
                  \<and> (\<not> (method_of opts = ''GET'' \<and> Map_has (cache ?st2) ?key)
                       \<longrightarrow> fst (request_begin ?st2 endpoint data opts) = Started (Suc ?q))"
    if "fst (makeRequest transport opts) \<noteq> None"
  proof -
    from that obtain outcome effects where run: "makeRequest transport opts = (Some outcome, effects)"
      by (cases "makeRequest transport opts") auto
    note f = settle_launch_fields [OF run, of st endpoint data now]
    have ex: "exchanges ?st2 = exchanges st + length (fetches (snd (makeRequest transport opts)))"
      using f(2) run by simp
    have b: "1 \<le> exchanges ?st2 - exchanges st" "exchanges ?st2 - exchanges st \<le> maxRetries_of opts"
      using exchanges_bounds [of transport opts] ex by simp_all
    have one: "\<not> threw (attempt (transport 1)) \<longrightarrow> exchanges ?st2 = exchanges st + 1"
      using exchanges_first_try [of transport opts] ex by simp
    have gone: "\<not> Map_has (requestQueue ?st2) ?key"
      unfolding f(3) by (rule Map_has_delete)
    have again: "\<not> (method_of opts = ''GET'' \<and> Map_has (cache ?st2) ?key)
                   \<longrightarrow> fst (request_begin ?st2 endpoint data opts) = Started (Suc ?q)"
    proof
      assume "\<not> (method_of opts = ''GET'' \<and> Map_has (cache ?st2) ?key)"
      from request_begin_started [OF this gone]
      show "fst (request_begin ?st2 endpoint data opts) = Started (Suc ?q)"
        by (simp add: f(1))
    qed
    from ex b one gone again show ?thesis by blast
  qed
  show "let (hs, st1) = request_many st endpoint data opts (Suc n);
                 q = length (launched st);
                 st2 = settle st1 now q transport
             in hs = Started q # replicate n (Joined q)
              \<and> length (launched st1) = Suc (length (launched st))
              \<and> (\<forall>h \<in> set hs. outcome_of st1 h = None)
              \<and> (\<forall>h \<in> set hs. outcome_of st2 h = fst (makeRequest transport opts))
              \<and> length (launched st2) = Suc (length (launched st))
              \<and> (fst (makeRequest transport opts) = None \<longrightarrow> st2 = st1)
              \<and> (fst (makeRequest transport opts) \<noteq> None \<longrightarrow>
                    1 \<le> exchanges st2 - exchanges st
                  \<and> exchanges st2 - exchanges st \<le> maxRetries_of opts
                  \<and> exchanges st2 = exchanges st + length (fetches (snd (makeRequest transport opts)))
                  \<and> (\<not> threw (attempt (transport 1)) \<longrightarrow> exchanges st2 = exchanges st + 1)
                  \<and> \<not> Map_has (requestQueue st2) (cacheKey_of endpoint data opts)
                  \<and> (\<not> (method_of opts = ''GET'' \<and> Map_has (cache st2) (cacheKey_of endpoint data opts))
                       \<longrightarrow> fst (request_begin st2 endpoint data opts) = Started (Suc q)))"
    unfolding many Let_def prod.case
    using l1 pending settled l2 stuck fin by blast
qed

lemma no_options_method: "method_of no_options = ''POST''"
  by (simp add: method_of_def no_options_def)

lemma makeRequest_fails_once:
  "makeRequest (fails_then (Suc 0) login_ok) no_options = (Some (Inr login_ok), [Fetch 1, Sleep 1000, Fetch 2])"
  using makeRequest_success [of 2 no_options "fails_then (Suc 0) login_ok" login_ok]
  by (simp add: no_options_policy fails_then_def attempt_network_down attempt_respond_login_ok
        backoff_trace_def upt_rec)

text \<open>
  Three simultaneous logins on a fresh service, against a transport that fails once.
\<close>

theorem dedup_single_run_witness:
  "request_many api_init ''user.login'' login_payload no_options 3 =
     ([Started 0, Joined 0, Joined 0], launch api_init ''user.login'' login_payload no_options)
   \<and> map (outcome_of (settle (launch api_init ''user.login'' login_payload no_options) 5000 0
                         (fails_then 1 login_ok)))
         [Started 0, Joined 0, Joined 0]
       = [Some (Inr login_ok), Some (Inr login_ok), Some (Inr login_ok)]
   \<and> fst (request_begin (settle (launch api_init ''user.login'' login_payload no_options) 5000 0
                             (fails_then 1 login_ok))
              ''user.login'' login_payload no_options) = Started 1"
proof -
  have nc: "\<not> (method_of no_options = ''GET''
                \<and> Map_has (cache api_init) (cacheKey_of ''user.login'' login_payload no_options))"
    by (simp add: no_options_method)
  have nq: "\<not> Map_has (requestQueue api_init) (cacheKey_of ''user.login'' login_payload no_options)"
    by (simp add: api_init_def Map_has_def)
  have l0: "length (launched api_init) = 0"
    by (simp add: api_init_def)
  have many: "request_many api_init ''user.login'' login_payload no_options (Suc 2) =
     ([Started 0, Joined 0, Joined 0], launch api_init ''user.login'' login_payload no_options)"
    using request_many_fresh [OF nc nq, of 2] by (simp add: l0 numeral_2_eq_2)
  note T = dedup_single_run [OF nc, where n = 2 and now = 5000 and transport = "fails_then 1 login_ok",
      THEN conjunct2, rule_format, OF nq, unfolded many Let_def prod.case l0]
  from T have o: "\<forall>h \<in> set [Started 0, Joined 0, Joined 0].
      outcome_of (settle (launch api_init ''user.login'' login_payload no_options) 5000 0
                    (fails_then 1 login_ok)) h = Some (Inr login_ok)"
    by (simp add: makeRequest_fails_once split: if_splits)
  from T have a: "fst (request_begin (settle (launch api_init ''user.login'' login_payload no_options) 5000 0
                             (fails_then 1 login_ok))
              ''user.login'' login_payload no_options) = Started 1"
    by (simp add: no_options_method makeRequest_fails_once)
  from many o a show ?thesis by (simp add: numeral_3_eq_3)
qed

lemma makeRequest_stats_answered:
  "makeRequest (fails_then 0 stats_body) stats_options = (Some (Inr stats_body), [Fetch 1])"
  using makeRequest_success [of 1 stats_options "fails_then 0 stats_body" stats_body]
  by (simp add: stats_options_def maxRetries_of_def fails_then_def
        attempt_def respond_def stats_body_def backoff_trace_def)

text \<open>
  Claim C1 as stated fails: two simultaneous calls whose first attempt fails make two
  exchanges, not one; and after a cacheable call has settled, the next call is answered
  from the cache instead of starting a fresh attempt.
\<close>

theorem dedup_one_exchange_counterexample:
  "fst (request_many api_init ''user.login'' login_payload no_options 2) = [Started 0, Joined 0]
   \<and> exchanges (settle (snd (request_many api_init ''user.login'' login_payload no_options 2)) 5000 0
                   (fails_then 1 login_ok)) = 2
   \<and> fst (request_begin
            (settle (snd (request_begin api_init ''post.stats'' stats_payload stats_options)) 0 0
               (fails_then 0 stats_body))
            ''post.stats'' stats_payload stats_options) = Immediate stats_body"
proof -
  have many: "request_many api_init ''user.login'' login_payload no_options (Suc 1) =
     ([Started 0, Joined 0], launch api_init ''user.login'' login_payload no_options)"
    using request_many_fresh [of no_options api_init "''user.login''" login_payload 1]
    by (simp add: no_options_method api_init_def Map_has_def)
  have two: "exchanges (settle (launch api_init ''user.login'' login_payload no_options) 5000 0
                   (fails_then 1 login_ok)) = 2"
    using settle_launch_fields(2) [OF makeRequest_fails_once, of api_init "''user.login''" login_payload 5000]
    by (simp add: api_init_def)
  have cached: "fst (request_begin
            (settle (snd (request_begin api_init ''post.stats'' stats_payload stats_options)) 0 0
               (fails_then 0 stats_body))
            ''post.stats'' stats_payload stats_options) = Immediate stats_body"
    by (simp add: request_begin_def launch_def settle_def request_finish_def api_init_def
          method_of_def cacheKey_of_def stats_options_def makeRequest_stats_answered [unfolded stats_options_def]
          Map_has_def Map_get_def Map_delete_def Let_def)
  from many two cached show ?thesis by (simp add: numeral_2_eq_2)
qed

lemma consistentI:
  assumes "\<And>p. p < length (launched st) \<Longrightarrow> snd (launched st ! p) = None \<Longrightarrow> pending_ok st p"
  shows "consistent st"
proof -
  have "snd (launched st ! p) \<noteq> None \<or> pending_ok st p" if "p < length (launched st)" for p
    using assms [OF that] by blast
  then show ?thesis by (simp add: consistent_def list_all_iff)
qed

lemma consistentD:
  assumes "consistent st" "p < length (launched st)" "snd (launched st ! p) = None"
  shows "pending_ok st p"
proof -
  from assms(1) have "\<forall>p \<in> set [0..<length (launched st)]. snd (launched st ! p) \<noteq> None \<or> pending_ok st p"
    by (simp add: consistent_def list_all_iff)
  with assms(2) have "snd (launched st ! p) \<noteq> None \<or> pending_ok st p" by simp
  with assms(3) show ?thesis by simp
qed

lemma consistent_init: "consistent api_init"
  by (simp add: consistent_def api_init_def)

lemma Map_get_set_other: "k' \<noteq> k \<Longrightarrow> Map_get (Map_set m k v) k' = Map_get m k'"
  by (simp add: Map_get_def map_of_Map_set)

lemma Map_has_set: "Map_has (Map_set m k v) k' \<longleftrightarrow> k' = k \<or> Map_has m k'"
  by (simp add: Map_has_def map_of_Map_set)

lemma Map_get_delete: "Map_get (Map_delete m k) k' = (if k' = k then None else Map_get m k')"
  by (simp add: Map_get_def map_of_Map_delete)

lemma consistent_launch:
  assumes c: "consistent st"
    and nc: "\<not> (method_of opts = ''GET'' \<and> Map_has (cache st) (cacheKey_of endpoint data opts))"
    and nq: "\<not> Map_has (requestQueue st) (cacheKey_of endpoint data opts)"
  shows "consistent (launch st endpoint data opts)"
proof (rule consistentI)
  let ?k = "cacheKey_of endpoint data opts"
  let ?st = "launch st endpoint data opts"
  have ch: "cache ?st = cache st"
    and l: "launched ?st = launched st @ [((endpoint, data, method_of opts, opts), None)]"
    and q: "requestQueue ?st = Map_set (requestQueue st) ?k (length (launched st))"
    by (simp_all add: launch_def)
  show "pending_ok ?st p" if p: "p < length (launched ?st)" and n: "snd (launched ?st ! p) = None" for p
  proof (cases "p < length (launched st)")
    case True
    then have same: "launched ?st ! p = launched st ! p" by (simp add: l nth_append)
    with n have "snd (launched st ! p) = None" by simp
    from consistentD [OF c True this] have old: "pending_ok st p" .
    then have "Map_get (requestQueue st) (launch_key (fst (launched st ! p))) = Some p"
      by (simp add: pending_ok_def)
    with nq have "launch_key (fst (launched st ! p)) \<noteq> ?k"
      by (auto simp: Map_has_get)
    with old show ?thesis by (simp add: pending_ok_def same q ch Map_get_set_other)
  next
    case False
    with p have "p = length (launched st)" by (simp add: l)
    then show ?thesis using nc by (simp add: pending_ok_def l q ch Map_get_set)
  qed
qed

lemma consistent_request_begin:
  assumes "consistent st"
  shows "consistent (snd (request_begin st endpoint data opts))"
proof (cases "method_of opts = ''GET'' \<and> Map_has (cache st) (cacheKey_of endpoint data opts)")
  case True
  then show ?thesis using assms by (simp add: request_begin_def)
next
  case nc: False
  show ?thesis
  proof (cases "Map_has (requestQueue st) (cacheKey_of endpoint data opts)")
    case True
    then show ?thesis using assms nc by (auto simp: request_begin_def Let_def split: option.splits)
  next
    case False
    from consistent_launch [OF assms nc False] show ?thesis
      by (simp add: request_begin_started [OF nc False])
  qed
qed

lemma settle_noop:
  assumes "\<not> (p < length (launched st) \<and> snd (launched st ! p) = None)"
  shows "settle st now p transport = st"
  using assms by (auto simp: settle_def split: prod.splits option.splits)

lemma settle_stuck:
  assumes "launched st ! p = ((endpoint, data, method, opts), None)"
    and "fst (makeRequest transport opts) = None"
  shows "settle st now p transport = st"
  using assms by (cases "makeRequest transport opts") (simp add: settle_def)

lemma settle_pending:
  assumes p: "p < length (launched st)" and a: "launched st ! p = ((endpoint, data, method, opts), None)"
    and run: "makeRequest transport opts = (Some outcome, effects)"
  shows "settle st now p transport =
           snd (request_finish
                 (st\<lparr>launched := (launched st)[p := ((endpoint, data, method, opts), Some outcome)],
                     exchanges := exchanges st + length (fetches effects)\<rparr>)
                 now endpoint data opts outcome)"
  using assms by (simp add: settle_def)

lemma settle_pending_fields:
  fixes st :: api_state and now :: nat
  assumes p: "p < length (launched st)" and a: "launched st ! p = ((endpoint, data, method, opts), None)"
    and run: "makeRequest transport opts = (Some outcome, effects)"
  defines "st2 \<equiv> settle st now p transport"
  shows "launched st2 = (launched st)[p := ((endpoint, data, method, opts), Some outcome)]"
    and "exchanges st2 = exchanges st + length (fetches effects)"
    and "requestQueue st2 = Map_delete (requestQueue st) (cacheKey_of endpoint data opts)"
    and "cache st2 =
           (if stores opts outcome
            then Map_set (cache st) (cacheKey_of endpoint data opts) (projr outcome)
            else cache st)"
    and "timers st2 =
           (if stores opts outcome
            then timers st @ [(now + setTimeout_delay (the (opt_cacheTime opts)), cacheKey_of endpoint data opts)]
            else timers st)"
proof -
  show "launched st2 = (launched st)[p := ((endpoint, data, method, opts), Some outcome)]"
    unfolding st2_def settle_pending [OF p a run]
    by (simp add: request_finish_def Let_def split: sum.splits option.splits)
  show "exchanges st2 = exchanges st + length (fetches effects)"
    unfolding st2_def settle_pending [OF p a run]
    by (simp add: request_finish_def Let_def split: sum.splits option.splits)
  show "requestQueue st2 = Map_delete (requestQueue st) (cacheKey_of endpoint data opts)"
    unfolding st2_def settle_pending [OF p a run]
    by (simp add: request_finish_def Let_def split: sum.splits option.splits)
  show "cache st2 =
           (if stores opts outcome
            then Map_set (cache st) (cacheKey_of endpoint data opts) (projr outcome)
            else cache st)"
    unfolding st2_def settle_pending [OF p a run]
    by (simp add: request_finish_def stores_def Let_def split: sum.splits option.splits)
  show "timers st2 =
           (if stores opts outcome
            then timers st @ [(now + setTimeout_delay (the (opt_cacheTime opts)), cacheKey_of endpoint data opts)]
            else timers st)"
    unfolding st2_def settle_pending [OF p a run]
    by (simp add: request_finish_def stores_def Let_def split: sum.splits option.splits)
qed

text \<open>
  The ways the settlement of a promise can go: nothing to settle, or the continuation
  of a pending invocation runs.
\<close>

lemma settle_cases:
  obtains (same) "settle st now p transport = st"
  | (ran) endpoint data meth opts outcome effects
      where "p < length (launched st)" "launched st ! p = ((endpoint, data, meth, opts), None)"
        "makeRequest transport opts = (Some outcome, effects)"
proof (cases "p < length (launched st) \<and> snd (launched st ! p) = None")
  case False
  then show ?thesis by (intro same settle_noop)
next
  case True
  then obtain endpoint data meth opts where a: "launched st ! p = ((endpoint, data, meth, opts), None)"
    by (cases "launched st ! p") auto
  show ?thesis
  proof (cases "fst (makeRequest transport opts)")
    case None
    from settle_stuck [OF a None] show ?thesis by (rule same)
  next
    case (Some outcome)
    then obtain effects where "makeRequest transport opts = (Some outcome, effects)"
      by (cases "makeRequest transport opts") simp
    with True a show ?thesis by (intro ran) simp_all
  qed
qed

lemma stores_fresh_key:
  assumes c: "consistent st" and p: "p < length (launched st)"
    and a: "launched st ! p = ((endpoint, data, meth, opts), None)"
    and s: "stores opts outcome"
  shows "\<not> Map_has (cache st) (cacheKey_of endpoint data opts)"
proof -
  from a have "snd (launched st ! p) = None" by simp
  from consistentD [OF c p this] a
  have "\<not> (method_of opts = ''GET'' \<and> Map_has (cache st) (cacheKey_of endpoint data opts))"
    by (simp add: pending_ok_def)
  moreover from s have "method_of opts = ''GET''"
    by (auto simp: stores_def split: sum.splits option.splits)
  ultimately show ?thesis by simp
qed

lemma consistent_settle:
  assumes c: "consistent st"
  shows "consistent (settle st now p transport)"
proof (cases rule: settle_cases [where st = st and now = now and p = p and transport = transport])
  case same
  with c show ?thesis by simp
next
  case (ran endpoint data meth opts outcome effects)
  let ?k = "cacheKey_of endpoint data opts"
  let ?st = "settle st now p transport"
  note f = settle_pending_fields [OF ran, of now]
  from ran(2) have pn: "snd (launched st ! p) = None" by simp
  from consistentD [OF c ran(1) pn] ran(2)
  have qp: "Map_get (requestQueue st) ?k = Some p"
    by (simp add: pending_ok_def)
  show ?thesis
  proof (rule consistentI)
    show "pending_ok ?st p'" if p': "p' < length (launched ?st)" and n: "snd (launched ?st ! p') = None" for p'
    proof -
      from p' have p'l: "p' < length (launched st)" by (simp add: f(1))
      from n ran(1) have ne: "p' \<noteq> p" by (auto simp: f(1))
      then have same: "launched ?st ! p' = launched st ! p'" by (simp add: f(1))
      with n have "snd (launched st ! p') = None" by simp
      from consistentD [OF c p'l this] have old: "pending_ok st p'" .
      let ?k' = "launch_key (fst (launched st ! p'))"
      from old have q': "Map_get (requestQueue st) ?k' = Some p'" by (simp add: pending_ok_def)
      with qp ne have kne: "?k' \<noteq> ?k" by auto
      then have "Map_has (cache ?st) ?k' = Map_has (cache st) ?k'"
        by (simp add: f(4) Map_has_set)
      with old kne show ?thesis
        by (simp add: pending_ok_def same f(3) Map_get_delete)
    qed
  qed
qed

lemma Map_has_foldl_delete:
  "Map_has (foldl Map_delete m ks) k \<longleftrightarrow> Map_has m k \<and> k \<notin> set ks"
  by (auto simp: Map_has_def foldl_Map_delete map_of_filter_key)

lemma consistent_shrink:
  assumes c: "consistent st" and l: "launched st' = launched st"
    and q: "requestQueue st' = requestQueue st"
    and s: "\<And>k. Map_has (cache st') k \<Longrightarrow> Map_has (cache st) k"
  shows "consistent st'"
proof (rule consistentI)
  fix p assume "p < length (launched st')" "snd (launched st' ! p) = None"
  then have "pending_ok st p" using consistentD [OF c] by (simp add: l)
  then show "pending_ok st' p" using s by (auto simp: pending_ok_def l q)
qed

lemma consistent_advance: "consistent st \<Longrightarrow> consistent (advance st t)"
  by (erule consistent_shrink) (simp_all add: advance_def Map_has_foldl_delete)

lemma consistent_clearUserCache: "consistent st \<Longrightarrow> consistent (clearUserCache st email)"
  by (erule consistent_shrink)
     (simp_all add: clearUserCache_def Map_has_foldl_delete)

lemma consistent_clearCache: "consistent st \<Longrightarrow> consistent (clearCache st)"
  by (erule consistent_shrink) (simp_all add: clearCache_def Map_has_def)

lemma consistent_step: "consistent st \<Longrightarrow> consistent (api_step st ev)"
  by (cases ev)
     (simp_all add: consistent_request_begin consistent_settle consistent_advance
        consistent_clearUserCache consistent_clearCache)

lemma consistent_run: "consistent st \<Longrightarrow> consistent (foldl api_step st evs)"
  by (induction evs arbitrary: st) (simp_all add: consistent_step)

lemma request_begin_keeps_cache:
  "cache (snd (request_begin st endpoint data opts)) = cache st"
  "timers (snd (request_begin st endpoint data opts)) = timers st"
  "exchanges (snd (request_begin st endpoint data opts)) = exchanges st"
  by (auto simp: request_begin_def launch_def Let_def split: option.splits)

lemma timers_okI:
  assumes "distinct (map snd (timers st))"
    and "\<And>k. k \<in> snd ` set (timers st) \<Longrightarrow> Map_has (cache st) k"
  shows "timers_ok st"
  using assms by (auto simp: timers_ok_def list_all_iff)

lemma timers_okD:
  assumes "timers_ok st"
  shows "distinct (map snd (timers st))"
    and "\<And>k. k \<in> snd ` set (timers st) \<Longrightarrow> Map_has (cache st) k"
  using assms by (auto simp: timers_ok_def list_all_iff)

lemma timers_ok_init: "timers_ok api_init"
  by (simp add: timers_ok_def api_init_def)

lemma timers_ok_request_begin: "timers_ok st \<Longrightarrow> timers_ok (snd (request_begin st endpoint data opts))"
  by (simp add: timers_ok_def request_begin_keeps_cache)

lemma timers_ok_settle:
  assumes c: "consistent st" and t: "timers_ok st"
  shows "timers_ok (settle st now p transport)"
proof (cases rule: settle_cases [where st = st and now = now and p = p and transport = transport])
  case same
  with t show ?thesis by simp
next
  case (ran endpoint data meth opts outcome effects)
  let ?k = "cacheKey_of endpoint data opts"
  let ?st = "settle st now p transport"
  note f = settle_pending_fields [OF ran, of now]
  note d = timers_okD(1) [OF t] and tc = timers_okD(2) [OF t]
  have kt: "?k \<notin> snd ` set (timers st)" if "stores opts outcome"
    using stores_fresh_key [OF c ran(1) ran(2) that] tc by blast
  show ?thesis
  proof (rule timers_okI)
    show "distinct (map snd (timers ?st))"
      using d kt by (simp add: f(5))
    show "Map_has (cache ?st) k" if "k \<in> snd ` set (timers ?st)" for k
    proof (cases "stores opts outcome")
      case True
      with that have "k = ?k \<or> k \<in> snd ` set (timers st)" by (auto simp: f(5))
      then show ?thesis using True tc by (auto simp: f(4) Map_has_set)
    next
      case False
      with that tc show ?thesis by (simp add: f(4) f(5))
    qed
  qed
qed

lemma timer_unique:
  assumes "distinct (map snd ts)" "(due, k) \<in> set ts" "(due', k) \<in> set ts"
  shows "due = due'"
  using assms by (induction ts) (auto simp: image_iff)

lemma timers_ok_advance:
  assumes t: "timers_ok st"
  shows "timers_ok (advance st t0)"
proof (rule timers_okI)
  let ?st = "advance st t0"
  let ?fired = "map snd (filter (\<lambda>(due, k). due \<le> t0) (timers st))"
  have tm: "timers ?st = filter (\<lambda>(due, k). \<not> due \<le> t0) (timers st)"
    and ch: "cache ?st = foldl Map_delete (cache st) ?fired"
    by (simp_all add: advance_def)
  note d = timers_okD(1) [OF t] and tc = timers_okD(2) [OF t]
  show "distinct (map snd (timers ?st))"
    unfolding tm using d by (rule distinct_map_filter)
  show "Map_has (cache ?st) k" if "k \<in> snd ` set (timers ?st)" for k
  proof -
    from that obtain due where in': "(due, k) \<in> set (timers st)" and late: "\<not> due \<le> t0"
      by (auto simp: tm)
    have "k \<notin> set ?fired"
    proof
      assume "k \<in> set ?fired"
      then obtain due' where in'': "(due', k) \<in> set (timers st)" and early: "due' \<le> t0" by auto
      from timer_unique [OF d in' in''] late early show False by simp
    qed
    moreover from in' have "k \<in> snd ` set (timers st)" by force
    then have "Map_has (cache st) k" by (rule tc)
    ultimately show ?thesis by (simp add: ch Map_has_foldl_delete)
  qed
qed

lemma timers_ok_step:
  assumes "consistent st" "timers_ok st" "no_clear ev"
  shows "timers_ok (api_step st ev)"
  using assms
  by (cases ev) (simp_all add: timers_ok_request_begin timers_ok_settle timers_ok_advance)

lemma timers_ok_run:
  assumes "list_all no_clear evs" "consistent st" "timers_ok st"
  shows "timers_ok (foldl api_step st evs)"
  using assms
proof (induction evs arbitrary: st)
  case Nil
  then show ?case by simp
next
  case (Cons ev evs)
  from Cons.prems(1) have n: "no_clear ev" and ns: "list_all no_clear evs" by simp_all
  from Cons.IH [OF ns consistent_step [OF Cons.prems(2)] timers_ok_step [OF Cons.prems(2) Cons.prems(3) n]]
  show ?case by simp
qed

lemma no_timer_beforeI:
  assumes "\<And>d. (d, key) \<in> set (timers st) \<Longrightarrow> due \<le> d"
  shows "no_timer_before st key due"
  using assms by (auto simp: no_timer_before_def list_all_iff)

lemma no_timer_beforeD:
  assumes "no_timer_before st key due" "(d, key) \<in> set (timers st)"
  shows "due \<le> d"
  using assms by (auto simp: no_timer_before_def list_all_iff)

lemma no_stale_timer_without_clear:
  assumes "list_all no_clear history"
    and "\<not> Map_has (cache (foldl api_step api_init history)) key"
  shows "no_timer_before (foldl api_step api_init history) key due"
proof (rule no_timer_beforeI)
  fix d assume "(d, key) \<in> set (timers (foldl api_step api_init history))"
  then have "key \<in> snd ` set (timers (foldl api_step api_init history))" by force
  from timers_okD(2) [OF timers_ok_run [OF assms(1) consistent_init timers_ok_init] this] assms(2)
  show "due \<le> d" by simp
qed

lemma Map_get_filter_key: "Map_get (filter (\<lambda>(k, v). P k) m) x = (if P x then Map_get m x else None)"
  by (simp add: Map_get_def map_of_filter_key)

lemma entry_survives_step:
  assumes c: "consistent st" and v: "Map_get (cache st) k = Some v"
    and tm: "no_timer_before st k due" and ev: "keeps k due ev"
  shows "Map_get (cache (api_step st ev)) k = Some v \<and> no_timer_before (api_step st ev) k due"
proof (cases ev)
  case (Call endpoint data opts)
  with v tm show ?thesis by (simp add: request_begin_keeps_cache no_timer_before_def)
next
  case (Settle now p transport)
  show ?thesis
  proof (cases rule: settle_cases [where st = st and now = now and p = p and transport = transport])
    case same
    with v tm Settle show ?thesis by simp
  next
    case (ran endpoint data meth opts outcome effects)
    note f = settle_pending_fields [OF ran, of now]
    have ne: "cacheKey_of endpoint data opts \<noteq> k" if "stores opts outcome"
      using stores_fresh_key [OF c ran(1) ran(2) that] v by (auto simp: Map_has_get)
    then have "Map_get (cache (settle st now p transport)) k = Map_get (cache st) k"
      by (auto simp: f(4) Map_get_set_other)
    moreover have "no_timer_before (settle st now p transport) k due"
      using tm ne by (auto simp: f(5) no_timer_before_def)
    ultimately show ?thesis using v Settle by simp
  qed
next
  case (Tick t)
  with ev have late: "t < due" by simp
  let ?fired = "map snd (filter (\<lambda>(due, k). due \<le> t) (timers st))"
  have "k \<notin> set ?fired"
  proof
    assume "k \<in> set ?fired"
    then obtain d where "(d, k) \<in> set (timers st)" and early: "d \<le> t" by auto
    from no_timer_beforeD [OF tm this(1)] late early show False by simp
  qed
  then have "Map_get (cache (advance st t)) k = Map_get (cache st) k"
    by (simp add: advance_def Map_get_def foldl_Map_delete map_of_filter_key)
  moreover have "no_timer_before (advance st t) k due"
    using tm by (auto simp: advance_def no_timer_before_def list_all_iff)
  ultimately show ?thesis using v Tick by simp
next
  case (ClearUserCache email)
  with ev have "\<not> str_includes k email" by simp
  then have "Map_get (cache (clearUserCache st email)) k = Map_get (cache st) k"
    by (simp add: cache_clearUserCache Map_get_filter_key)
  moreover have "no_timer_before (clearUserCache st email) k due"
    using tm by (simp add: clearUserCache_def no_timer_before_def)
  ultimately show ?thesis using v ClearUserCache by simp
next
  case ClearCache
  with ev show ?thesis by simp
qed

lemma entry_survives_run:
  assumes "consistent st" "Map_get (cache st) k = Some v" "no_timer_before st k due"
    and "list_all (keeps k due) evs"
  shows "Map_get (cache (foldl api_step st evs)) k = Some v"
  using assms
proof (induction evs arbitrary: st)
  case Nil
  then show ?case by simp
next
  case (Cons ev evs)
  from Cons.prems(4) have q: "keeps k due ev" and qs: "list_all (keeps k due) evs" by simp_all
  from entry_survives_step [OF Cons.prems(1) Cons.prems(2) Cons.prems(3) q]
  have "Map_get (cache (api_step st ev)) k = Some v" "no_timer_before (api_step st ev) k due"
    by simp_all
  from Cons.IH [OF consistent_step [OF Cons.prems(1)] this qs] show ?case by simp
qed

lemma queue_okI:
  assumes "\<And>k p. (k, p) \<in> set (requestQueue st) \<Longrightarrow>
             p < length (launched st) \<and> snd (launched st ! p) = None
             \<and> launch_key (fst (launched st ! p)) = k"
  shows "queue_ok st"
  using assms by (auto simp: queue_ok_def list_all_iff)

lemma queue_ok_entry:
  assumes "queue_ok st" "(k, p) \<in> set (requestQueue st)"
  shows "p < length (launched st) \<and> snd (launched st ! p) = None
         \<and> launch_key (fst (launched st ! p)) = k"
  using assms by (auto simp: queue_ok_def list_all_iff)

lemma queue_okD:
  assumes "queue_ok st" "Map_get (requestQueue st) k = Some p"
  shows "p < length (launched st)" "snd (launched st ! p) = None"
    "launch_key (fst (launched st ! p)) = k"
proof -
  from assms(2) have "(k, p) \<in> set (requestQueue st)"
    unfolding Map_get_def by (rule map_of_SomeD)
  from queue_ok_entry [OF assms(1) this]
  show "p < length (launched st)" "snd (launched st ! p) = None"
    "launch_key (fst (launched st ! p)) = k"
    by simp_all
qed

lemma queue_ok_init: "queue_ok api_init"
  by (simp add: queue_ok_def api_init_def)

lemma set_Map_set: "set (Map_set m k v) \<subseteq> insert (k, v) (set m)"
  by (induction m) (auto split: if_splits)

lemma set_Map_delete: "set (Map_delete m k) = {(k', v). (k', v) \<in> set m \<and> k' \<noteq> k}"
  by (auto simp: Map_delete_def)

lemma queue_ok_launch:
  assumes "queue_ok st"
  shows "queue_ok (launch st endpoint data opts)"
proof (rule queue_okI)
  let ?st = "launch st endpoint data opts"
  let ?key = "cacheKey_of endpoint data opts"
  have l: "launched ?st = launched st @ [((endpoint, data, method_of opts, opts), None)]"
    and q: "requestQueue ?st = Map_set (requestQueue st) ?key (length (launched st))"
    by (simp_all add: launch_def)
  fix k p assume "(k, p) \<in> set (requestQueue ?st)"
  with set_Map_set [of "requestQueue st" ?key "length (launched st)"]
  have "(k, p) = (?key, length (launched st)) \<or> (k, p) \<in> set (requestQueue st)"
    unfolding q by blast
  then show "p < length (launched ?st) \<and> snd (launched ?st ! p) = None
             \<and> launch_key (fst (launched ?st ! p)) = k"
  proof
    assume "(k, p) = (?key, length (launched st))"
    then show ?thesis by (simp add: l)
  next
    assume "(k, p) \<in> set (requestQueue st)"
    from queue_ok_entry [OF assms this] show ?thesis by (simp add: l nth_append)
  qed
qed

lemma queue_ok_request_begin:
  assumes "queue_ok st"
  shows "queue_ok (snd (request_begin st endpoint data opts))"
  using assms queue_ok_launch [OF assms, of endpoint data opts]
  by (auto simp: request_begin_def Let_def split: option.splits)

lemma queue_ok_settle:
  assumes "queue_ok st"
  shows "queue_ok (settle st now p transport)"
proof (cases rule: settle_cases [where st = st and now = now and p = p and transport = transport])
  case same
  with assms show ?thesis by simp
next
  case (ran endpoint data meth opts outcome effects)
  let ?st = "settle st now p transport"
  note f = settle_pending_fields [OF ran, of now]
  show ?thesis
  proof (rule queue_okI)
    fix k' p' assume "(k', p') \<in> set (requestQueue ?st)"
    then have old: "(k', p') \<in> set (requestQueue st)" and ne: "k' \<noteq> cacheKey_of endpoint data opts"
      by (simp_all add: f(3) set_Map_delete)
    from queue_ok_entry [OF assms old]
    have e: "p' < length (launched st)" "snd (launched st ! p') = None"
      "launch_key (fst (launched st ! p')) = k'"
      by simp_all
    from e(3) ne ran(2) have "p' \<noteq> p" by auto
    with e show "p' < length (launched ?st) \<and> snd (launched ?st ! p') = None
             \<and> launch_key (fst (launched ?st ! p')) = k'"
      by (simp add: f(1))
  qed
qed

lemma queue_ok_step: "queue_ok st \<Longrightarrow> queue_ok (api_step st ev)"
  by (cases ev)
     (simp_all add: queue_ok_request_begin queue_ok_settle,
      simp_all add: queue_ok_def advance_def clearUserCache_def clearCache_def)

lemma queue_ok_run: "queue_ok st \<Longrightarrow> queue_ok (foldl api_step st evs)"
  by (induction evs arbitrary: st) (simp_all add: queue_ok_step)

lemma stats_options_facts:
  "method_of stats_options = ''GET''" "opt_cacheTime stats_options = Some 30000"
  "cacheKey_of endpoint data stats_options = ''stats_a@b.com''"
  "maxRetries_of stats_options = 3" "retryDelay_of stats_options = 1000"
  by (simp_all add: method_of_def cacheKey_of_def stats_options_def maxRetries_of_def retryDelay_of_def)

lemma uncached_stats_options_facts:
  "method_of uncached_stats_options = ''GET''" "opt_cacheTime uncached_stats_options = None"
  "cacheKey_of endpoint data uncached_stats_options = ''stats_a@b.com''"
  by (simp_all add: method_of_def cacheKey_of_def uncached_stats_options_def)

lemma long_cache_options_facts:
  "method_of long_cache_options = ''GET''" "opt_cacheTime long_cache_options = Some 2147483648"
  "cacheKey_of endpoint data long_cache_options = ''stats_a@b.com''"
  by (simp_all add: method_of_def cacheKey_of_def long_cache_options_def)

lemma setTimeout_delay_values:
  "setTimeout_delay 30000 = 30000" "setTimeout_delay 2147483648 = 0"
  by (simp_all add: setTimeout_delay_def)

lemma makeRequest_first_try:
  assumes "attempt (transport 1) = Some (Inr r)"
  shows "makeRequest transport opts = (Some (Inr r), [Fetch 1])"
  using makeRequest_success [of 1 opts transport r] maxRetries_pos [of opts] assms
  by (simp add: backoff_trace_def)

lemma attempt_respond_stats: "attempt (respond stats_body) = Some (Inr stats_body)"
  by (simp add: attempt_def respond_def stats_body_def)

lemma makeRequest_stats_first_try:
  "makeRequest (\<lambda>i. respond stats_body) opts = (Some (Inr stats_body), [Fetch 1])"
  by (rule makeRequest_first_try) (rule attempt_respond_stats)

lemma makeRequest_stats_down:
  "makeRequest (\<lambda>i. network_down) stats_options =
     (Some (Inl (Error ''API request failed after 3 attempts: Failed to fetch'')),
      [Fetch 1, Sleep 1000, Fetch 2, Sleep 2000, Fetch 3])"
  using makeRequest_exhaust [of stats_options "\<lambda>i. network_down" "\<lambda>i. TypeError ''Failed to fetch''"]
  by (simp add: attempt_network_down stats_options_facts show_nat_3 backoff_trace_3)

lemmas run_service =
  request_begin_def launch_def settle_def request_finish_def advance_def clearUserCache_def
  clearCache_def api_init_def Map_has_def Map_get_def Map_delete_def Map_keys_def Let_def
  stats_options_facts uncached_stats_options_facts long_cache_options_facts
  setTimeout_delay_values makeRequest_stats_first_try makeRequest_stats_down

text \<open>
  Claim C4 as stated fails, in four ways. (1) A timer that outlives its entry, because
  the entry was cleared first, deletes the entry the key has then (line 41 deletes by
  key): stored at 0 and cleared, the statistics are fetched again and stored at 20000;
  the first timer fires at 30000, and a call at 40000, within the 30 s of the second
  entry, goes to the transport and fails with it. (2) A call that joins a request started
  under the same key without a \<^verbatim>\<open>cacheTime\<close> gets its value, but nothing is stored, and the
  next call starts a request. (3) A \<^verbatim>\<open>cacheTime\<close> of \<open>2^31\<close> ms gives a timer that fires at
  once. (4) \<^verbatim>\<open>clearCache\<close> between the two calls removes the entry.
\<close>

theorem cache_within_ttl_counterexample:
  "outcome_of (foldl api_step api_init
       (stored_then_cleared @
        [Call ''post.stats'' stats_payload stats_options, Settle 20000 1 (\<lambda>i. respond stats_body)]))
     (Started 1) = Some (Inr stats_body)
   \<and> fst (request_begin
        (foldl api_step api_init
           (stored_then_cleared @
            [Call ''post.stats'' stats_payload stats_options, Settle 20000 1 (\<lambda>i. respond stats_body),
             Tick 30000]))
        ''post.stats'' stats_payload stats_options) = Started 2
   \<and> outcome_of (foldl api_step api_init
       (stored_then_cleared @
        [Call ''post.stats'' stats_payload stats_options, Settle 20000 1 (\<lambda>i. respond stats_body),
         Tick 30000,
         Call ''post.stats'' stats_payload stats_options, Settle 40000 2 (\<lambda>i. network_down)]))
     (Started 2) = Some (Inl (Error ''API request failed after 3 attempts: Failed to fetch''))
   \<and> fst (request_begin
        (foldl api_step api_init [Call ''post.stats'' stats_payload uncached_stats_options])
        ''post.stats'' stats_payload stats_options) = Joined 0
   \<and> fst (request_begin
        (foldl api_step api_init
           [Call ''post.stats'' stats_payload uncached_stats_options,
            Call ''post.stats'' stats_payload stats_options,
            Settle 1000 0 (\<lambda>i. respond stats_body)])
        ''post.stats'' stats_payload stats_options) = Started 1
   \<and> fst (request_begin
        (foldl api_step api_init
           [Call ''post.stats'' stats_payload long_cache_options,
            Settle 0 0 (\<lambda>i. respond stats_body), Tick 0])
        ''post.stats'' stats_payload long_cache_options) = Started 1
   \<and> fst (request_begin
        (foldl api_step api_init
           [Call ''post.stats'' stats_payload stats_options,
            Settle 0 0 (\<lambda>i. respond stats_body), ClearCache])
        ''post.stats'' stats_payload stats_options) = Started 1"
proof -
  have 1: "outcome_of (foldl api_step api_init
       (stored_then_cleared @
        [Call ''post.stats'' stats_payload stats_options, Settle 20000 1 (\<lambda>i. respond stats_body)]))
     (Started 1) = Some (Inr stats_body)"
    by (simp add: stored_then_cleared_def run_service)
  have 2: "fst (request_begin
        (foldl api_step api_init
           (stored_then_cleared @
            [Call ''post.stats'' stats_payload stats_options, Settle 20000 1 (\<lambda>i. respond stats_body),
             Tick 30000]))
        ''post.stats'' stats_payload stats_options) = Started 2"
    by (simp add: stored_then_cleared_def run_service)
  have 3: "outcome_of (foldl api_step api_init
       (stored_then_cleared @
        [Call ''post.stats'' stats_payload stats_options, Settle 20000 1 (\<lambda>i. respond stats_body),
         Tick 30000,
         Call ''post.stats'' stats_payload stats_options, Settle 40000 2 (\<lambda>i. network_down)]))
     (Started 2) = Some (Inl (Error ''API request failed after 3 attempts: Failed to fetch''))"
    by (simp add: stored_then_cleared_def run_service)
  have 4: "fst (request_begin
        (foldl api_step api_init [Call ''post.stats'' stats_payload uncached_stats_options])
        ''post.stats'' stats_payload stats_options) = Joined 0"
    by (simp add: run_service)
  have 5: "fst (request_begin
        (foldl api_step api_init
           [Call ''post.stats'' stats_payload uncached_stats_options,
            Call ''post.stats'' stats_payload stats_options,
            Settle 1000 0 (\<lambda>i. respond stats_body)])
        ''post.stats'' stats_payload stats_options) = Started 1"
    by (simp add: run_service)
  have 6: "fst (request_begin
        (foldl api_step api_init
           [Call ''post.stats'' stats_payload long_cache_options,
            Settle 0 0 (\<lambda>i. respond stats_body), Tick 0])
        ''post.stats'' stats_payload long_cache_options) = Started 1"
    by (simp add: run_service)
  have 7: "fst (request_begin
        (foldl api_step api_init
           [Call ''post.stats'' stats_payload stats_options,
            Settle 0 0 (\<lambda>i. respond stats_body), ClearCache])
        ''post.stats'' stats_payload stats_options) = Started 1"
    by (simp add: run_service)
  from 1 2 3 4 5 6 7 show ?thesis by blast
qed

lemma request_begin_promise:
  assumes q: "queue_ok st"
    and nc: "\<not> (method_of opts = ''GET'' \<and> Map_has (cache st) (cacheKey_of endpoint data opts))"
    and rb: "request_begin st endpoint data opts = (h, st1)"
    and h: "h = Started r \<or> h = Joined r"
  shows "Map_get (requestQueue st1) (cacheKey_of endpoint data opts) = Some r"
    and "r < length (launched st1)"
    and "snd (launched st1 ! r) = None"
    and "launch_key (fst (launched st1 ! r)) = cacheKey_of endpoint data opts"
    and "h = Started r \<longrightarrow> launch_options (fst (launched st1 ! r)) = opts"
proof -
  let ?key = "cacheKey_of endpoint data opts"
  have q1: "queue_ok st1"
    using queue_ok_request_begin [OF q, of endpoint data opts] rb by simp
  have both: "Map_get (requestQueue st1) ?key = Some r
              \<and> (h = Started r \<longrightarrow> launch_options (fst (launched st1 ! r)) = opts)"
  proof (cases "Map_has (requestQueue st) ?key")
    case True
    then obtain p where p: "Map_get (requestQueue st) ?key = Some p"
      by (auto simp: Map_has_get)
    from request_begin_joined [OF nc p] rb have "h = Joined p" "st1 = st" by simp_all
    with h p show ?thesis by auto
  next
    case False
    from request_begin_started [OF nc False] rb
    have e: "h = Started (length (launched st))" "st1 = launch st endpoint data opts" by simp_all
    with h have "r = length (launched st)" by auto
    with e show ?thesis by (simp add: launch_def Map_get_set)
  qed
  then show "Map_get (requestQueue st1) ?key = Some r"
    and "h = Started r \<longrightarrow> launch_options (fst (launched st1 ! r)) = opts"
    by simp_all
  from both have g: "Map_get (requestQueue st1) ?key = Some r" by simp
  from queue_okD [OF q1 g]
  show "r < length (launched st1)" "snd (launched st1 ! r) = None"
    "launch_key (fst (launched st1 ! r)) = ?key"
    by simp_all
qed

text \<open>
  Claim C4, as the code has it. A GET call whose key is in the cache returns the cached
  value at once and changes nothing: no invocation is started, the queue is not
  consulted, no exchange is made. Hence, in any state that calls, settlements, timers
  and clearings have led to from the fresh service: let a GET call whose key is not in
  the cache start a request or join the one pending under its key, and let that request
  have been started as a GET with a time to live below \<open>2^31\<close> ms, as it is when the call
  starts it with such options of its own. If no eviction timer pending for the key is
  due before \<open>t0 + ttl\<close> and the request settles with a value at time \<open>t0\<close>, the caller has
  that value, and the same call, made after any further events that neither bring the
  clock to \<open>t0 + ttl\<close> nor clear the key, returns it from the cache, whatever the transport
  would answer. On a service whose cache has never been cleared, no timer is pending
  for a key that is not in the cache.
\<close>

theorem cache_hit_skips_transport:
  "(method_of opts = ''GET'' \<and> Map_get (cache st) (cacheKey_of endpoint data opts) = Some v
      \<longrightarrow> request_begin st endpoint data opts = (Immediate v, st))
   \<and> (st = foldl api_step api_init history
        \<and> method_of opts = ''GET''
        \<and> \<not> Map_has (cache st) (cacheKey_of endpoint data opts)
        \<and> request_begin st endpoint data opts = (h, st1)
        \<and> (h = Started r \<or> h = Joined r)
        \<and> launch_options (fst (launched st1 ! r)) = started_with
        \<and> method_of started_with = ''GET''
        \<and> opt_cacheTime started_with = Some ttl \<and> 0 < ttl \<and> ttl < 2 ^ 31
        \<and> no_timer_before st (cacheKey_of endpoint data opts) (t0 + ttl)
        \<and> fst (makeRequest transport started_with) = Some (Inr v)
        \<and> list_all (keeps (cacheKey_of endpoint data opts) (t0 + ttl)) evs
      \<longrightarrow> (let st2 = settle st1 t0 r transport;
                st3 = foldl api_step st2 evs
            in outcome_of st2 h = Some (Inr v)
             \<and> request_begin st3 endpoint data opts = (Immediate v, st3)))
   \<and> (st = foldl api_step api_init history
        \<and> \<not> Map_has (cache st) (cacheKey_of endpoint data opts)
        \<and> request_begin st endpoint data opts = (Started r, st1)
      \<longrightarrow> launch_options (fst (launched st1 ! r)) = opts)
   \<and> (st = foldl api_step api_init history \<and> list_all no_clear history
        \<and> \<not> Map_has (cache st) (cacheKey_of endpoint data opts)
      \<longrightarrow> no_timer_before st (cacheKey_of endpoint data opts) due)"
proof (intro conjI impI)
  assume "method_of opts = ''GET'' \<and> Map_get (cache st) (cacheKey_of endpoint data opts) = Some v"
  then show "request_begin st endpoint data opts = (Immediate v, st)"
    using request_begin_cached by blast
next
  assume "st = foldl api_step api_init history \<and> list_all no_clear history
        \<and> \<not> Map_has (cache st) (cacheKey_of endpoint data opts)"
  then have st: "st = foldl api_step api_init history" and n: "list_all no_clear history"
    and c: "\<not> Map_has (cache st) (cacheKey_of endpoint data opts)"
    by blast+
  from c have "\<not> Map_has (cache (foldl api_step api_init history)) (cacheKey_of endpoint data opts)"
    unfolding st .
  from no_stale_timer_without_clear [OF n this]
  show "no_timer_before st (cacheKey_of endpoint data opts) due"
    unfolding st .
next
  assume "st = foldl api_step api_init history
        \<and> \<not> Map_has (cache st) (cacheKey_of endpoint data opts)
        \<and> request_begin st endpoint data opts = (Started r, st1)"
  then have st: "st = foldl api_step api_init history"
    and ncache: "\<not> Map_has (cache st) (cacheKey_of endpoint data opts)"
    and rb: "request_begin st endpoint data opts = (Started r, st1)"
    by blast+
  have q: "queue_ok st"
    unfolding st by (rule queue_ok_run [OF queue_ok_init])
  from ncache have nc: "\<not> (method_of opts = ''GET'' \<and> Map_has (cache st) (cacheKey_of endpoint data opts))"
    by simp
  from request_begin_promise(5) [OF q nc rb, of r]
  show "launch_options (fst (launched st1 ! r)) = opts" by simp
next
  let ?key = "cacheKey_of endpoint data opts"
  let ?st2 = "settle st1 t0 r transport"
  let ?st3 = "foldl api_step ?st2 evs"
  assume a: "st = foldl api_step api_init history
        \<and> method_of opts = ''GET''
        \<and> \<not> Map_has (cache st) ?key
        \<and> request_begin st endpoint data opts = (h, st1)
        \<and> (h = Started r \<or> h = Joined r)
        \<and> launch_options (fst (launched st1 ! r)) = started_with
        \<and> method_of started_with = ''GET''
        \<and> opt_cacheTime started_with = Some ttl \<and> 0 < ttl \<and> ttl < 2 ^ 31
        \<and> no_timer_before st ?key (t0 + ttl)
        \<and> fst (makeRequest transport started_with) = Some (Inr v)
        \<and> list_all (keeps ?key (t0 + ttl)) evs"
  then have st: "st = foldl api_step api_init history" and g: "method_of opts = ''GET''"
    and ncache: "\<not> Map_has (cache st) ?key"
    and rb: "request_begin st endpoint data opts = (h, st1)"
    and h: "h = Started r \<or> h = Joined r"
    and sw: "launch_options (fst (launched st1 ! r)) = started_with"
    and gs: "method_of started_with = ''GET''"
    and ct: "opt_cacheTime started_with = Some ttl" and pos: "0 < ttl" and small: "ttl < 2 ^ 31"
    and nt: "no_timer_before st ?key (t0 + ttl)"
    and ok: "fst (makeRequest transport started_with) = Some (Inr v)"
    and quiet: "list_all (keeps ?key (t0 + ttl)) evs"
    by blast+
  from ok obtain effects where run: "makeRequest transport started_with = (Some (Inr v), effects)"
    by (cases "makeRequest transport started_with") auto
  have c: "consistent st"
    unfolding st by (rule consistent_run [OF consistent_init])
  have q: "queue_ok st"
    unfolding st by (rule queue_ok_run [OF queue_ok_init])
  from ncache have nc: "\<not> (method_of opts = ''GET'' \<and> Map_has (cache st) ?key)" by simp
  note p = request_begin_promise [OF q nc rb h]
  have s1: "st1 = snd (request_begin st endpoint data opts)" using rb by simp
  have c1: "consistent st1"
    unfolding s1 by (rule consistent_request_begin [OF c])
  have ch1: "cache st1 = cache st" and tm1: "timers st1 = timers st"
    unfolding s1 by (simp_all add: request_begin_keeps_cache)
  obtain endpoint' data' meth' where a': "launched st1 ! r = ((endpoint', data', meth', started_with), None)"
    using p(3) sw by (cases "launched st1 ! r") auto
  from p(4) a' have k': "cacheKey_of endpoint' data' started_with = ?key" by simp
  note f = settle_pending_fields [OF p(2) a' run, of t0]
  have s: "stores started_with (Inr v)"
    using gs ct pos by (simp add: stores_def)
  have c2: "consistent ?st2"
    by (rule consistent_settle [OF c1])
  have v2: "Map_get (cache ?st2) ?key = Some v"
    using f(4) s k' by (simp add: Map_get_set)
  have t2: "timers ?st2 = timers st @ [(t0 + ttl, ?key)]"
    using f(5) s k' ct by (simp add: setTimeout_delay_small [OF small] tm1)
  have n2: "no_timer_before ?st2 ?key (t0 + ttl)"
    using nt by (simp add: no_timer_before_def t2)
  from entry_survives_run [OF c2 v2 n2 quiet] have hit: "Map_get (cache ?st3) ?key = Some v" .
  from g have again: "request_begin ?st3 endpoint data opts = (Immediate v, ?st3)"
    using hit by (rule request_begin_cached)
  have o: "outcome_of ?st2 h = Some (Inr v)"
    using h p(2) by (auto simp: f(1))
  show "let st2 = settle st1 t0 r transport;
            st3 = foldl api_step st2 evs
        in outcome_of st2 h = Some (Inr v)
         \<and> request_begin st3 endpoint data opts = (Immediate v, st3)"
    unfolding Let_def using again o by simp
qed

lemma after_stored_then_cleared:
  "foldl api_step api_init (stored_then_cleared @ [Tick 30000]) =
     \<lparr>cache = [], requestQueue = [], timers = [],
      launched = [((''post.stats'', stats_payload, ''GET'', stats_options), Some (Inr stats_body))],
      exchanges = 1\<rparr>"
  by (simp add: stored_then_cleared_def run_service)

lemma restarted_after_clear:
  "request_begin (foldl api_step api_init (stored_then_cleared @ [Tick 30000]))
     ''post.stats'' stats_payload stats_options =
   (Started 1,
    \<lparr>cache = [], requestQueue = [(''stats_a@b.com'', 1)], timers = [],
      launched = [((''post.stats'', stats_payload, ''GET'', stats_options), Some (Inr stats_body)),
                  ((''post.stats'', stats_payload, ''GET'', stats_options), None)],
      exchanges = 1\<rparr>)"
  unfolding after_stored_then_cleared by (simp add: run_service)

lemma after_stats_pending:
  "foldl api_step api_init stats_pending =
     \<lparr>cache = [], requestQueue = [(''stats_a@b.com'', 0)], timers = [],
      launched = [((''post.stats'', stats_payload, ''GET'', stats_options), None)],
      exchanges = 0\<rparr>"
  by (simp add: stats_pending_def run_service)

lemma joined_stats_pending:
  "request_begin (foldl api_step api_init stats_pending) ''post.stats'' stats_payload stats_options =
     (Joined 0, foldl api_step api_init stats_pending)"
  unfolding after_stats_pending by (simp add: run_service)

text \<open>
  \<^verbatim>\<open>getUserStats\<close> on a service that has stored the statistics once, has had them cleared
  and has seen their timer fire: the call starts a request, which stores them again at
  40000 ms with 30 s to live; then a login is started and fails, another user's cache is
  cleared, the clock goes to 69999 ms, and the statistics are read again. And
  \<^verbatim>\<open>getUserStats\<close> while a request for the statistics is pending: the call joins it, the
  request stores them at 1000 ms, and they are read again.
\<close>

theorem cache_hit_skips_transport_witness:
  "request_begin
     (foldl api_step
        (settle (snd (request_begin (foldl api_step api_init (stored_then_cleared @ [Tick 30000]))
                        ''post.stats'' stats_payload stats_options))
           40000 1 (\<lambda>i. respond stats_body))
        meanwhile)
     ''post.stats'' stats_payload stats_options
   = (Immediate stats_body,
      foldl api_step
        (settle (snd (request_begin (foldl api_step api_init (stored_then_cleared @ [Tick 30000]))
                        ''post.stats'' stats_payload stats_options))
           40000 1 (\<lambda>i. respond stats_body))
        meanwhile)
   \<and> outcome_of (settle (foldl api_step api_init stats_pending) 1000 0 (\<lambda>i. respond stats_body))
        (Joined 0) = Some (Inr stats_body)
   \<and> fst (request_begin
        (foldl api_step (settle (foldl api_step api_init stats_pending) 1000 0 (\<lambda>i. respond stats_body))
           [Tick 30999])
        ''post.stats'' stats_payload stats_options) = Immediate stats_body"
proof -
  let ?st = "foldl api_step api_init (stored_then_cleared @ [Tick 30000])"
  let ?st1 = "snd (request_begin ?st ''post.stats'' stats_payload stats_options)"
  have h: "?st = foldl api_step api_init (stored_then_cleared @ [Tick 30000])
        \<and> method_of stats_options = ''GET''
        \<and> \<not> Map_has (cache ?st) (cacheKey_of ''post.stats'' stats_payload stats_options)
        \<and> request_begin ?st ''post.stats'' stats_payload stats_options = (Started 1, ?st1)
        \<and> (Started 1 = Started 1 \<or> Started 1 = Joined 1)
        \<and> launch_options (fst (launched ?st1 ! 1)) = stats_options
        \<and> method_of stats_options = ''GET''
        \<and> opt_cacheTime stats_options = Some 30000 \<and> (0::nat) < 30000 \<and> (30000::nat) < 2 ^ 31
        \<and> no_timer_before ?st (cacheKey_of ''post.stats'' stats_payload stats_options) (40000 + 30000)
        \<and> fst (makeRequest (\<lambda>i. respond stats_body) stats_options) = Some (Inr stats_body)
        \<and> list_all (keeps (cacheKey_of ''post.stats'' stats_payload stats_options) (40000 + 30000)) meanwhile"
    unfolding restarted_after_clear
    unfolding after_stored_then_cleared
    by (simp add: stats_options_facts makeRequest_stats_first_try Map_has_def no_timer_before_def
          meanwhile_def)
  let ?pd = "foldl api_step api_init stats_pending"
  have j: "?pd = foldl api_step api_init stats_pending
        \<and> method_of stats_options = ''GET''
        \<and> \<not> Map_has (cache ?pd) (cacheKey_of ''post.stats'' stats_payload stats_options)
        \<and> request_begin ?pd ''post.stats'' stats_payload stats_options = (Joined 0, ?pd)
        \<and> (Joined 0 = Started 0 \<or> Joined 0 = Joined 0)
        \<and> launch_options (fst (launched ?pd ! 0)) = stats_options
        \<and> method_of stats_options = ''GET''
        \<and> opt_cacheTime stats_options = Some 30000 \<and> (0::nat) < 30000 \<and> (30000::nat) < 2 ^ 31
        \<and> no_timer_before ?pd (cacheKey_of ''post.stats'' stats_payload stats_options) (1000 + 30000)
        \<and> fst (makeRequest (\<lambda>i. respond stats_body) stats_options) = Some (Inr stats_body)
        \<and> list_all (keeps (cacheKey_of ''post.stats'' stats_payload stats_options) (1000 + 30000)) [Tick 30999]"
    unfolding joined_stats_pending
    unfolding after_stats_pending
    by (simp add: stats_options_facts makeRequest_stats_first_try Map_has_def no_timer_before_def)
  note T = cache_hit_skips_transport [where opts = stats_options and st = ?st
      and endpoint = "''post.stats''" and data = stats_payload and v = stats_body and ttl = 30000
      and transport = "\<lambda>i. respond stats_body" and history = "stored_then_cleared @ [Tick 30000]"
      and ?t0.0 = 40000 and evs = meanwhile and h = "Started 1" and r = 1 and ?st1.0 = ?st1
      and started_with = stats_options,
      THEN conjunct2, THEN conjunct1, rule_format, OF h]
  note J = cache_hit_skips_transport [where opts = stats_options and st = ?pd
      and endpoint = "''post.stats''" and data = stats_payload and v = stats_body and ttl = 30000
      and transport = "\<lambda>i. respond stats_body" and history = stats_pending
      and ?t0.0 = 1000 and evs = "[Tick 30999]" and h = "Joined 0" and r = 0 and ?st1.0 = ?pd
      and started_with = stats_options,
      THEN conjunct2, THEN conjunct1, rule_format, OF j]
  from T have 1: "request_begin (foldl api_step (settle ?st1 40000 1 (\<lambda>i. respond stats_body)) meanwhile)
        ''post.stats'' stats_payload stats_options
      = (Immediate stats_body, foldl api_step (settle ?st1 40000 1 (\<lambda>i. respond stats_body)) meanwhile)"
    by (simp only: Let_def)
  from J have 2: "outcome_of (settle ?pd 1000 0 (\<lambda>i. respond stats_body)) (Joined 0) = Some (Inr stats_body)"
    and 3: "request_begin (foldl api_step (settle ?pd 1000 0 (\<lambda>i. respond stats_body)) [Tick 30999])
        ''post.stats'' stats_payload stats_options
      = (Immediate stats_body, foldl api_step (settle ?pd 1000 0 (\<lambda>i. respond stats_body)) [Tick 30999])"
    by (simp_all only: Let_def)
  from 3 have 4: "fst (request_begin (foldl api_step (settle ?pd 1000 0 (\<lambda>i. respond stats_body)) [Tick 30999])
        ''post.stats'' stats_payload stats_options) = Immediate stats_body"
    by (simp only: fst_conv)
  from 1 2 4 show ?thesis by (simp only: simp_thms)
qed

section \<open>Sessions\<close>

lemma auth_catch_session:
  "currentUser (snd (auth_catch st error)) = currentUser st"
  "localStorage (snd (auth_catch st error)) = localStorage st"
  "fst (auth_catch st error) = AuthFailure (message error)"
  by (simp_all add: auth_catch_def)

lemma get_prop_not_nullish: "not_nullish user \<Longrightarrow> \<exists>email. get_prop user ''email'' = Inr email"
  by (cases user) (auto simp: not_nullish_def split: option.splits)

lemma get_prop_no_email: "\<not> not_nullish user \<Longrightarrow> \<exists>e. get_prop user ''email'' = Inl e"
  by (cases user) (auto simp: not_nullish_def)

lemma setUserSession_written:
  assumes "not_nullish user"
  shows "fst (setUserSession st now user) = None"
    and "currentUser (snd (setUserSession st now user)) = user"
    and "localStorage (snd (setUserSession st now user)) ''sessionExpiry'' = Some (show_nat (now + sessionTimeout))"
    and "localStorage (snd (setUserSession st now user)) ''userData''
           = Some (case JSON_stringify user of None \<Rightarrow> ''undefined'' | Some s \<Rightarrow> s)"
  using get_prop_not_nullish [OF assms] by (auto simp: setUserSession_def Let_def)

lemma setUserSession_thrown:
  assumes "\<not> not_nullish user"
  shows "\<exists>e. fst (setUserSession st now user) = Some e"
    and "localStorage (snd (setUserSession st now user)) = localStorage st"
    and "currentUser (snd (setUserSession st now user)) = user"
  using get_prop_no_email [OF assms] by (auto simp: setUserSession_def Let_def)

lemma authenticate_expiry:
  "localStorage (snd (authenticate welcome st now out)) ''sessionExpiry'' =
     (if (case granted_user out of None \<Rightarrow> False | Some u \<Rightarrow> not_nullish u)
      then Some (show_nat (now + sessionTimeout))
      else localStorage st ''sessionExpiry'')"
proof (cases "granted_user out")
  case None
  then show ?thesis
    by (auto simp: authenticate_def granted_user_def auth_catch_def split: sum.splits if_splits)
next
  case (Some u)
  then obtain result s where r: "out = Inr result" "get_prop result ''success'' = Inr s" "truthy s"
      "get_prop result ''user'' = Inr u"
    by (auto simp: granted_user_def split: sum.splits if_splits)
  show ?thesis
  proof (cases "not_nullish u")
    case True
    from setUserSession_written [OF True, of st now] r Some True show ?thesis
      by (cases "setUserSession st now u") (simp add: authenticate_def)
  next
    case False
    from setUserSession_thrown [OF False, of st now] r Some False show ?thesis
      by (cases "setUserSession st now u") (auto simp: authenticate_def auth_catch_def)
  qed
qed




lemma show_nat_numeral:
  "show_nat (numeral k) =
     (if (numeral k :: nat) < 10 then [digit_char (numeral k)]
      else show_nat (numeral k div 10) @ [digit_char (numeral k mod 10)])"
  by (rule show_nat.simps)

lemma show_nat_small: "show_nat 0 = ''0''" "show_nat (Suc 0) = ''1''"
  by (simp_all add: show_nat.simps [of 0] show_nat.simps [of "Suc 0"] digit_char_def)

lemmas show_nat_eval = show_nat_numeral show_nat_small digit_char_def

lemma show_nat_expiry: "show_nat 86400000 = ''86400000''" "show_nat 86700000 = ''86700000''"
  by (simp_all add: show_nat_eval)

lemma sessionTimeout_value: "sessionTimeout = 86400000"
  by (simp add: sessionTimeout_def)

lemma granted_login_ok: "granted_user (Inr login_ok) = Some alice"
  by (simp add: granted_user_def login_ok_def)


lemma alice_not_nullish: "not_nullish alice" "truthy alice"
  by (simp_all add: not_nullish_def alice_def)

lemma login_ok_state:
  "currentUser (snd (login auth_init 0 (Inr login_ok))) = alice"
  using setUserSession_written(1,2) [OF alice_not_nullish(1), of auth_init 0]
  by (cases "setUserSession auth_init 0 alice")
     (simp add: login_def authenticate_def login_ok_def)




lemma authenticate_rejected:
  "authenticate welcome st now (Inl error) =
     (AuthFailure (message error), st\<lparr>notifications := notifications st @ [(message error, ''error'')]\<rparr>)"
  by (simp add: authenticate_def auth_catch_def)

lemma authenticate_refused:
  assumes "get_prop result ''success'' = Inr s" "\<not> truthy s" "get_prop result ''message'' = Inr m"
  shows "authenticate welcome st now (Inr result) =
     (AuthFailure (message (new_Error m)),
      st\<lparr>notifications := notifications st @ [(message (new_Error m), ''error'')]\<rparr>)"
  using assms by (simp add: authenticate_def auth_catch_def)

text \<open>
  Claim C8. When the API call of \<^verbatim>\<open>login\<close> rejects, \<^verbatim>\<open>login\<close> returns the failure with
  the error's message and neither \<^verbatim>\<open>currentUser\<close> nor \<^verbatim>\<open>localStorage\<close> changes (only the
  notification is shown). This is the case when every attempt of the request fails,
  whether the transport failed or the backend refused: the message is then the
  aggregated one. The same holds for a resolved result whose \<^verbatim>\<open>success\<close> is falsy.
\<close>

theorem login_failure_leaves_session:
  "login st now (Inl error) =
     (AuthFailure (message error), st\<lparr>notifications := notifications st @ [(message error, ''error'')]\<rparr>)
   \<and> currentUser (snd (login st now (Inl error))) = currentUser st
   \<and> localStorage (snd (login st now (Inl error))) = localStorage st
   \<and> ((\<forall>i. 1 \<le> i \<and> i \<le> maxRetries_of opts \<longrightarrow> attempt (transport i) = Some (Inl (cause i)))
        \<longrightarrow> (\<exists>out. fst (makeRequest transport opts) = Some out
              \<and> fst (login st now out) =
                  AuthFailure (''API request failed after '' @ show_nat (maxRetries_of opts) @ '' attempts: ''
                               @ message (cause (maxRetries_of opts)))
              \<and> currentUser (snd (login st now out)) = currentUser st
              \<and> localStorage (snd (login st now out)) = localStorage st))
   \<and> (get_prop result ''success'' = Inr s \<and> \<not> truthy s \<and> get_prop result ''message'' = Inr m
        \<longrightarrow> fst (login st now (Inr result)) = AuthFailure (message (new_Error m))
          \<and> currentUser (snd (login st now (Inr result))) = currentUser st
          \<and> localStorage (snd (login st now (Inr result))) = localStorage st)"
proof (intro conjI impI)
  show "login st now (Inl error) =
     (AuthFailure (message error), st\<lparr>notifications := notifications st @ [(message error, ''error'')]\<rparr>)"
    by (simp add: login_def authenticate_rejected)
  show "currentUser (snd (login st now (Inl error))) = currentUser st"
    by (simp add: login_def authenticate_rejected)
  show "localStorage (snd (login st now (Inl error))) = localStorage st"
    by (simp add: login_def authenticate_rejected)
next
  let ?e = "Error (''API request failed after '' @ show_nat (maxRetries_of opts) @ '' attempts: ''
                           @ message (cause (maxRetries_of opts)))"
  assume "\<forall>i. 1 \<le> i \<and> i \<le> maxRetries_of opts \<longrightarrow> attempt (transport i) = Some (Inl (cause i))"
  from makeRequest_exhaust [OF this]
  have out: "fst (makeRequest transport opts) = Some (Inl ?e)"
    by simp
  have "fst (login st now (Inl ?e)) = AuthFailure (message ?e)"
    "currentUser (snd (login st now (Inl ?e))) = currentUser st"
    "localStorage (snd (login st now (Inl ?e))) = localStorage st"
    by (simp_all add: login_def authenticate_rejected)
  with out
  show "\<exists>out. fst (makeRequest transport opts) = Some out
              \<and> fst (login st now out) =
                  AuthFailure (''API request failed after '' @ show_nat (maxRetries_of opts) @ '' attempts: ''
                               @ message (cause (maxRetries_of opts)))
              \<and> currentUser (snd (login st now out)) = currentUser st
              \<and> localStorage (snd (login st now out)) = localStorage st"
    by (intro exI [of _ "Inl ?e"]) simp
next
  assume a: "get_prop result ''success'' = Inr s \<and> \<not> truthy s \<and> get_prop result ''message'' = Inr m"
  then have r: "login st now (Inr result) =
     (AuthFailure (message (new_Error m)),
      st\<lparr>notifications := notifications st @ [(message (new_Error m), ''error'')]\<rparr>)"
    unfolding login_def using authenticate_refused by blast
  show "fst (login st now (Inr result)) = AuthFailure (message (new_Error m))"
    by (simp add: r)
  show "currentUser (snd (login st now (Inr result))) = currentUser st"
    by (simp add: r)
  show "localStorage (snd (login st now (Inr result))) = localStorage st"
    by (simp add: r)
qed

lemma attempt_respond_login_refused: "attempt (respond login_refused) = Some (Inl (Error ''User not found''))"
  by (simp add: respond_def attempt_refused [OF login_refused_props])

text \<open>
  A second login refused by the backend while a session is open; a refusal received as
  a resolved result.
\<close>

theorem login_failure_leaves_session_witness:
  "fst (makeRequest (\<lambda>i. respond login_refused) no_options)
     = Some (Inl (Error ''API request failed after 3 attempts: User not found''))
   \<and> fst (login (snd (login auth_init 0 (Inr login_ok))) 5000
          (Inl (Error ''API request failed after 3 attempts: User not found'')))
     = AuthFailure ''API request failed after 3 attempts: User not found''
   \<and> currentUser (snd (login (snd (login auth_init 0 (Inr login_ok))) 5000
          (Inl (Error ''API request failed after 3 attempts: User not found'')))) = alice
   \<and> localStorage (snd (login (snd (login auth_init 0 (Inr login_ok))) 5000
          (Inl (Error ''API request failed after 3 attempts: User not found'')))) ''sessionExpiry''
       = Some ''86400000''
   \<and> fst (login auth_init 5000 (Inr login_refused)) = AuthFailure ''User not found''
   \<and> localStorage (snd (login auth_init 5000 (Inr login_refused))) = Map.empty"
proof -
  let ?st = "snd (login auth_init 0 (Inr login_ok))"
  have e: "localStorage ?st ''sessionExpiry'' = Some ''86400000''"
    by (simp add: login_def authenticate_expiry granted_login_ok alice_not_nullish
          sessionTimeout_value show_nat_expiry)
  note T = login_failure_leaves_session [where st = ?st and now = 5000 and opts = no_options
      and transport = "\<lambda>i. respond login_refused" and cause = "\<lambda>i. Error ''User not found''",
      THEN conjunct2, THEN conjunct2, THEN conjunct2, THEN conjunct1]
  note U = login_failure_leaves_session [where st = auth_init and now = 5000 and result = login_refused
      and s = "JBool False" and m = "JStr ''User not found''",
      THEN conjunct2, THEN conjunct2, THEN conjunct2, THEN conjunct2]
  let ?e = "Inl (Error ''API request failed after 3 attempts: User not found'')"
  have m: "fst (makeRequest (\<lambda>i. respond login_refused) no_options) = Some ?e"
    using makeRequest_exhaust [of no_options "\<lambda>i. respond login_refused" "\<lambda>i. Error ''User not found''"]
    by (simp add: attempt_respond_login_refused no_options_policy show_nat_3)
  from T have "\<exists>out. fst (makeRequest (\<lambda>i. respond login_refused) no_options) = Some out
       \<and> fst (login ?st 5000 out) = AuthFailure ''API request failed after 3 attempts: User not found''
       \<and> currentUser (snd (login ?st 5000 out)) = currentUser ?st
       \<and> localStorage (snd (login ?st 5000 out)) = localStorage ?st"
    by (simp add: attempt_respond_login_refused no_options_policy show_nat_3)
  with m have 1: "fst (makeRequest (\<lambda>i. respond login_refused) no_options) = Some ?e
     \<and> fst (login ?st 5000 ?e) = AuthFailure ''API request failed after 3 attempts: User not found''
     \<and> currentUser (snd (login ?st 5000 ?e)) = currentUser ?st
     \<and> localStorage (snd (login ?st 5000 ?e)) = localStorage ?st"
    by auto
  from U have 2: "fst (login auth_init 5000 (Inr login_refused)) = AuthFailure ''User not found''
     \<and> localStorage (snd (login auth_init 5000 (Inr login_refused))) = localStorage auth_init"
    by (simp add: login_refused_props new_Error_def)
  have 3: "localStorage auth_init = Map.empty" by (simp add: auth_init_def)
  from 1 2 e 3 show ?thesis by (simp add: login_ok_state)
qed

end
